theory Spec2Isabelle
  imports Complex_Main "HOL-Library.Word"
begin

section \<open>Python values used by the program\<close>

text \<open>
  The program is a single Python script, \<^verbatim>\<open>streamlit_app.py\<close>.  Its strings are
  sequences of code points; the model uses \<^typ>\<open>string\<close>, so a character is a code
  point below 256 (the Latin-1 range) and text with larger code points is outside the
  model.  File contents are byte strings.
\<close>

type_synonym bytes = "8 word list"

subsection \<open>\<^verbatim>\<open>str.lower\<close>, \<^verbatim>\<open>str.strip\<close>, \<^verbatim>\<open>str.endswith\<close>, \<^verbatim>\<open>in\<close>, \<^verbatim>\<open>str.split\<close>\<close>

text \<open>
  Below code point 256 the cased upper-case letters are \<open>A\<close>..\<open>Z\<close> (65..90) and
  192..222 without the multiplication sign 215; each has its lower-case partner 32
  places later.
\<close>

definition lower_char :: "char \<Rightarrow> char" where
  "lower_char c =
     (let n = (of_char c :: nat)
      in if (65 \<le> n \<and> n \<le> 90) \<or> (192 \<le> n \<and> n \<le> 222 \<and> n \<noteq> 215)
         then char_of (n + 32) else c)"

definition lower :: "string \<Rightarrow> string" where
  "lower s = map lower_char s"

text \<open>
  \<^verbatim>\<open>str.strip()\<close> removes leading and trailing white space: below 256 these are
  the code points 9..13, 28..32, 133 and 160.
\<close>

definition is_space :: "char \<Rightarrow> bool" where
  "is_space c =
     (let n = (of_char c :: nat)
      in (9 \<le> n \<and> n \<le> 13) \<or> (28 \<le> n \<and> n \<le> 32) \<or> n = 133 \<or> n = 160)"

definition strip :: "string \<Rightarrow> string" where
  "strip s = rev (dropWhile is_space (rev (dropWhile is_space s)))"

definition endswith :: "string \<Rightarrow> string \<Rightarrow> bool" where
  "endswith s suf = (length suf \<le> length s \<and> drop (length s - length suf) s = suf)"

definition startswith :: "string \<Rightarrow> string \<Rightarrow> bool" where
  "startswith s pre = (take (length pre) s = pre)"

text \<open>\<open>py_in sub s\<close> is the Python expression \<^verbatim>\<open>sub in s\<close> on strings.\<close>

fun py_in :: "string \<Rightarrow> string \<Rightarrow> bool" where
  "py_in sub [] = (sub = [])"
| "py_in sub (c # cs) = (startswith (c # cs) sub \<or> py_in sub cs)"

text \<open>
  \<open>split_on sep s\<close> is \<^verbatim>\<open>s.split(sep)\<close> for a one-character separator: the fields
  between the separators, from left to right (\<open>field\<close> collects the current one).  The
  result always has at least one field, so \<^verbatim>\<open>s.split('/')[-1]\<close> never raises and is
  the \<^const>\<open>last\<close> field.
\<close>

fun split_fields :: "char \<Rightarrow> string \<Rightarrow> string \<Rightarrow> string list" where
  "split_fields sep field [] = [field]"
| "split_fields sep field (c # cs) =
     (if c = sep then field # split_fields sep [] cs
      else split_fields sep (field @ [c]) cs)"

definition split_on :: "char \<Rightarrow> string \<Rightarrow> string list" where
  "split_on sep s = split_fields sep [] s"

definition last_segment :: "string \<Rightarrow> string" where
  "last_segment key = last (split_on CHR ''/'' key)"

subsection \<open>Numbers and \<^verbatim>\<open>format_file_size\<close>\<close>

text \<open>
  \<^verbatim>\<open>
  def format_file_size(size_bytes):
      if size_bytes == 0:
          return "0B"
      size_names = ["B", "KB", "MB", "GB"]
      i = 0
      while size_bytes >= 1024 and i < len(size_names) - 1:
          size_bytes /= 1024.0
          i += 1
      return f"{size_bytes:.1f} {size_names[i]}"
  \<close>
  The argument is an \<^verbatim>\<open>int\<close>; the first division turns it into a \<^verbatim>\<open>float\<close>.
  A double is modelled by the rational number it denotes.  Converting an integer to a
  double rounds it to 53 significant bits, ties to even (\<open>float_of_int\<close>; the model
  does not cover integers of magnitude \<open>2 ^ 1024\<close> and more, where Python raises
  \<^verbatim>\<open>OverflowError\<close>).  Dividing a double that is at least 1024 by 1024 only lowers
  its exponent and is exact.  The format \<^verbatim>\<open>.1f\<close> prints the decimal with one
  fractional digit that is nearest to the exact value, ties to even, after the sign.
\<close>

datatype pynum = PyInt int | PyFloat rat

function excess_bits :: "int \<Rightarrow> nat" where
  "excess_bits n = (if n < 2 ^ 53 then 0 else Suc (excess_bits (n div 2)))"
  by pat_completeness auto
termination
  by (relation "measure nat") auto

definition float_of_nonneg :: "int \<Rightarrow> int" where
  "float_of_nonneg n =
     (let sh = excess_bits n; q = n div 2 ^ sh; r = n mod 2 ^ sh
      in (if 2 ^ sh < 2 * r \<or> (2 * r = 2 ^ sh \<and> odd q) then q + 1 else q) * 2 ^ sh)"

definition float_of_int :: "int \<Rightarrow> rat" where
  "float_of_int n =
     (if n < 0 then - of_int (float_of_nonneg (- n)) else of_int (float_of_nonneg n))"

fun to_float :: "pynum \<Rightarrow> rat" where
  "to_float (PyInt n) = float_of_int n"
| "to_float (PyFloat x) = x"

fun num_ge :: "pynum \<Rightarrow> int \<Rightarrow> bool" where
  "num_ge (PyInt n) k = (k \<le> n)"
| "num_ge (PyFloat x) k = (of_int k \<le> x)"

definition truediv :: "pynum \<Rightarrow> rat \<Rightarrow> pynum" where
  "truediv a d = PyFloat (to_float a / d)"

definition round_half_even :: "rat \<Rightarrow> int" where
  "round_half_even x =
     (let f = \<lfloor>x\<rfloor>; r = x - of_int f
      in if r < 1 / 2 then f else if 1 / 2 < r then f + 1 else if even f then f else f + 1)"

text \<open>The decimal digits of a non-negative integer.\<close>

function show_digits :: "int \<Rightarrow> string" where
  "show_digits n =
     (if n < 10 then [char_of (48 + n)]
      else show_digits (n div 10) @ [char_of (48 + n mod 10)])"
  by pat_completeness auto
termination
  by (relation "measure nat") auto

definition format_1f :: "pynum \<Rightarrow> string" where
  "format_1f a =
     (let x = to_float a; t = round_half_even (\<bar>x\<bar> * 10)
      in (if x < 0 then ''-'' else []) @ show_digits (t div 10) @ ''.'' @ show_digits (t mod 10))"

definition size_names :: "string list" where
  "size_names = [''B'', ''KB'', ''MB'', ''GB'']"

function size_loop :: "pynum \<Rightarrow> nat \<Rightarrow> pynum \<times> nat" where
  "size_loop size_bytes i =
     (if num_ge size_bytes 1024 \<and> i < length size_names - 1
      then size_loop (truediv size_bytes 1024) (i + 1)
      else (size_bytes, i))"
  by pat_completeness auto
termination
  by (relation "measure (\<lambda>(size_bytes, i). length size_names - 1 - i)")
    (auto simp: size_names_def)

definition format_file_size :: "int \<Rightarrow> string" where
  "format_file_size size_bytes =
     (if size_bytes = 0 then ''0B''
      else case size_loop (PyInt size_bytes) 0 of
             (x, i) \<Rightarrow> format_1f x @ '' '' @ size_names ! i)"

section \<open>The bucket, the interface and the regular-expression engine\<close>

text \<open>
  An object of a \<^verbatim>\<open>list_objects_v2\<close> page has the fields the program reads
  (\<^verbatim>\<open>Key\<close>, \<^verbatim>\<open>Size\<close>, \<^verbatim>\<open>LastModified\<close>, the time stamp as a number); a
  result dictionary of the program adds \<^verbatim>\<open>FileName\<close> and \<^verbatim>\<open>SizeFormatted\<close>.
\<close>

record s3_object =
  Key :: string
  Size :: int
  LastModified :: int

record pdf_file = s3_object +
  FileName :: string
  SizeFormatted :: string

text \<open>A page may lack the key \<^verbatim>\<open>'Contents'\<close> (\<open>None\<close>).\<close>

type_synonym page = "s3_object list option"

text \<open>
  The exceptions the program tells apart: botocore's \<^verbatim>\<open>ClientError\<close> and any
  other \<^verbatim>\<open>Exception\<close>.  The client is given by what its calls produce:
  \<open>list_pages bucket prefix\<close> is the outcome of running through the paginator of
  \<^verbatim>\<open>list_objects_v2\<close> (all the pages, or the exception that stops the iteration),
  \<open>get_object bucket key\<close> the outcome of \<^verbatim>\<open>get_object(...)['Body'].read()\<close>.
\<close>

datatype exn = ClientError | OtherException

record s3_client =
  list_pages :: "string \<Rightarrow> string \<Rightarrow> exn + page list"
  get_object :: "string \<Rightarrow> string \<Rightarrow> exn + bytes"

text \<open>
  What a function does besides returning is recorded as a list of events, in order: the
  requests sent to the bucket and the calls of \<^verbatim>\<open>st.error\<close>, one constructor for
  each message of the source (the text of the exception inside the message is left out).
\<close>

datatype st_error =
    ErrorAccessingS3Bucket
  | UnexpectedError
  | InvalidRegexPattern
  | ErrorSearchingFiles
  | ErrorDownloading string

datatype event =
    ListObjectsV2 string string
  | GetObject string string
  | StError st_error

subsection \<open>\<^verbatim>\<open>re.compile(pattern, re.IGNORECASE)\<close> and \<^verbatim>\<open>search\<close>\<close>

text \<open>
  The engine is Python's \<^verbatim>\<open>re\<close>.  \<^verbatim>\<open>re.compile\<close> returns a pattern object, raises
  \<^verbatim>\<open>re.error\<close> for a malformed pattern, or raises another exception
  (\<^verbatim>\<open>OverflowError\<close> for a repetition count that is too large, \<^verbatim>\<open>RecursionError\<close>).
  Of a pattern object the program uses the method \<^verbatim>\<open>search\<close>, a predicate on strings.

  The model gives its own account of the patterns built from literal characters,
  \<^verbatim>\<open>.\<close>, \<^verbatim>\<open>^\<close>, \<^verbatim>\<open>$\<close>, a backslash before a character that is no ASCII letter or
  digit, and \<^verbatim>\<open>*\<close> after a character or dot; and of a counted repetition
  \<^verbatim>\<open>{n}\<close> after such a beginning whose count is \<open>2 ^ 32 - 1\<close> (\<^verbatim>\<open>MAXREPEAT\<close>) or
  more.  Every other pattern (one with \<^verbatim>\<open>+ ? { } [ ] | ( )\<close> or a backslash before a
  letter or digit) is handed to the parameter \<open>ext\<close>, which stands for the rest of the
  engine.  The parser reads the pattern from the left, as \<^verbatim>\<open>sre_parse\<close> does: a
  \<^verbatim>\<open>*\<close> with nothing before it or after \<^verbatim>\<open>^\<close> or \<^verbatim>\<open>$\<close> is the error
  ``nothing to repeat'', after another \<^verbatim>\<open>*\<close> ``multiple repeat'', and a backslash
  at the end ``bad escape''.  For \<^verbatim>\<open>{n}\<close> it reads the digits and the closing brace
  and then raises \<^verbatim>\<open>OverflowError\<close> when the count is too large, before it looks at
  what is repeated; only a single backslash that ends the pattern right after the brace
  is found first, by the tokenizer, and is a \<^verbatim>\<open>re.error\<close>.
\<close>

datatype re_atom = Literal char | AnyChar

datatype re_item = Atom re_atom | Star re_atom | AtBeginning | AtEnd

datatype parsed = Parsed "re_item list" | ReError | RepeatTooLarge | OtherSyntax

definition is_ascii_digit :: "char \<Rightarrow> bool" where
  "is_ascii_digit c = (let n = (of_char c :: nat) in 48 \<le> n \<and> n \<le> 57)"

text \<open>\<^verbatim>\<open>int(lo)\<close> for a string of decimal digits.\<close>

definition int_of_digits :: "string \<Rightarrow> int" where
  "int_of_digits ds = foldl (\<lambda>n c. 10 * n + (of_char c - 48)) 0 ds"

definition MAXREPEAT :: int where
  "MAXREPEAT = 4294967295"

text \<open>The pattern after an opening brace: the outcome when it is a count that is too large.\<close>

definition counted_repeat :: "string \<Rightarrow> parsed" where
  "counted_repeat cs =
     (let lo = takeWhile is_ascii_digit cs
      in case dropWhile is_ascii_digit cs of
           [] \<Rightarrow> OtherSyntax
         | c # rest \<Rightarrow>
             if c = CHR ''}'' \<and> lo \<noteq> [] \<and> MAXREPEAT \<le> int_of_digits lo
             then (if rest = [CHR 0x5C] then ReError else RepeatTooLarge)
             else OtherSyntax)"

definition is_ascii_alnum :: "char \<Rightarrow> bool" where
  "is_ascii_alnum c =
     (let n = (of_char c :: nat)
      in (48 \<le> n \<and> n \<le> 57) \<or> (65 \<le> n \<and> n \<le> 90) \<or> (97 \<le> n \<and> n \<le> 122))"

fun repeat_last :: "re_item list \<Rightarrow> re_item list option" where
  "repeat_last [] = None"
| "repeat_last [Atom a] = Some [Star a]"
| "repeat_last [x] = None"
| "repeat_last (x # y # ys) = map_option ((#) x) (repeat_last (y # ys))"

fun parse_re :: "re_item list \<Rightarrow> string \<Rightarrow> parsed" where
  "parse_re acc [] = Parsed acc"
| "parse_re acc (c # cs) =
     (if c = CHR 0x5C then
        (case cs of
           [] \<Rightarrow> ReError
         | d # ds \<Rightarrow> if is_ascii_alnum d then OtherSyntax
                    else parse_re (acc @ [Atom (Literal d)]) ds)
      else if c = CHR ''.'' then parse_re (acc @ [Atom AnyChar]) cs
      else if c = CHR ''^'' then parse_re (acc @ [AtBeginning]) cs
      else if c = CHR ''$'' then parse_re (acc @ [AtEnd]) cs
      else if c = CHR ''*'' then
        (case repeat_last acc of None \<Rightarrow> ReError | Some acc' \<Rightarrow> parse_re acc' cs)
      else if c = CHR ''{'' then counted_repeat cs
      else if c \<in> set ''+?}[]|()'' then OtherSyntax
      else parse_re (acc @ [Atom (Literal c)]) cs)"

text \<open>
  With \<^verbatim>\<open>re.IGNORECASE\<close> a literal matches a character with the same lower-case
  form; the dot matches every character but the line feed.
\<close>

fun atom_matches :: "re_atom \<Rightarrow> char \<Rightarrow> bool" where
  "atom_matches (Literal c) d = (lower_char d = lower_char c)"
| "atom_matches AnyChar d = (d \<noteq> CHR 0x0A)"

text \<open>
  \<open>match_here items at_start rest\<close>: the items match a prefix of \<open>rest\<close>, the part of
  the subject string from the current position on; \<open>at_start\<close> says that the position
  is the beginning of the subject.  \<^verbatim>\<open>$\<close> matches at the end and before a line feed
  that ends the subject.
\<close>

fun match_here :: "re_item list \<Rightarrow> bool \<Rightarrow> string \<Rightarrow> bool" where
  "match_here [] at_start rest = True"
| "match_here (AtBeginning # items) at_start rest = (at_start \<and> match_here items at_start rest)"
| "match_here (AtEnd # items) at_start rest =
     ((rest = [] \<or> rest = [CHR 0x0A]) \<and> match_here items at_start rest)"
| "match_here (Atom a # items) at_start [] = False"
| "match_here (Atom a # items) at_start (c # cs) = (atom_matches a c \<and> match_here items False cs)"
| "match_here (Star a # items) at_start [] = match_here items at_start []"
| "match_here (Star a # items) at_start (c # cs) =
     (match_here items at_start (c # cs) \<or> (atom_matches a c \<and> match_here (Star a # items) False cs))"

text \<open>\<^verbatim>\<open>search\<close> tries every position of the subject, the end included.\<close>

fun search_from :: "re_item list \<Rightarrow> bool \<Rightarrow> string \<Rightarrow> bool" where
  "search_from items at_start [] = match_here items at_start []"
| "search_from items at_start (c # cs) =
     (match_here items at_start (c # cs) \<or> search_from items False cs)"

type_synonym pattern_object = "string \<Rightarrow> bool"

datatype compile_result = Compiled pattern_object | RaisesReError | RaisesOther

definition re_compile :: "(string \<Rightarrow> compile_result) \<Rightarrow> string \<Rightarrow> compile_result" where
  "re_compile ext pattern =
     (case parse_re [] pattern of
        Parsed items \<Rightarrow> Compiled (\<lambda>subject. search_from items True subject)
      | ReError \<Rightarrow> RaisesReError
      | RepeatTooLarge \<Rightarrow> RaisesOther
      | OtherSyntax \<Rightarrow> ext pattern)"

section \<open>The functions of \<^verbatim>\<open>streamlit_app.py\<close>\<close>

subsection \<open>\<^verbatim>\<open>find_specific_pdfs\<close>\<close>

text \<open>
  The dictionary appended for an object whose key ends in \<^verbatim>\<open>.pdf\<close>
  (lines 65--71 and 113--119).
\<close>

definition pdf_entry :: "s3_object \<Rightarrow> pdf_file" where
  "pdf_entry obj =
     \<lparr>Key = Key obj, Size = Size obj, LastModified = LastModified obj,
      FileName = last_segment (Key obj), SizeFormatted = format_file_size (Size obj)\<rparr>"

text \<open>
  \<^verbatim>\<open>
  for page in pages:
      if 'Contents' in page:
          for obj in page['Contents']:
              if obj['Key'].lower().endswith('.pdf'):
                  all_s3_files.append({...})
  \<close>
\<close>

fun scan_contents :: "s3_object list \<Rightarrow> pdf_file list \<Rightarrow> pdf_file list" where
  "scan_contents [] all_s3_files = all_s3_files"
| "scan_contents (obj # objs) all_s3_files =
     (if endswith (lower (Key obj)) ''.pdf''
      then scan_contents objs (all_s3_files @ [pdf_entry obj])
      else scan_contents objs all_s3_files)"

fun scan_pages :: "page list \<Rightarrow> pdf_file list \<Rightarrow> pdf_file list" where
  "scan_pages [] all_s3_files = all_s3_files"
| "scan_pages (None # pages) all_s3_files = scan_pages pages all_s3_files"
| "scan_pages (Some contents # pages) all_s3_files =
     scan_pages pages (scan_contents contents all_s3_files)"

text \<open>
  \<^verbatim>\<open>
  for target_file in target_files:
      target_file = target_file.strip()
      if not target_file:
          continue
      exact_matches = [f for f in all_s3_files if f['FileName'].lower() == target_file.lower()]
      if exact_matches:
          found_files.extend(exact_matches)
      else:
          partial_matches = [f for f in all_s3_files if target_file.lower() in f['FileName'].lower()]
          if partial_matches:
              found_files.extend(partial_matches)
  \<close>
\<close>

definition exact_matches :: "pdf_file list \<Rightarrow> string \<Rightarrow> pdf_file list" where
  "exact_matches all_s3_files target_file =
     filter (\<lambda>f. lower (FileName f) = lower target_file) all_s3_files"

definition partial_matches :: "pdf_file list \<Rightarrow> string \<Rightarrow> pdf_file list" where
  "partial_matches all_s3_files target_file =
     filter (\<lambda>f. py_in (lower target_file) (lower (FileName f))) all_s3_files"

fun match_targets :: "pdf_file list \<Rightarrow> string list \<Rightarrow> pdf_file list \<Rightarrow> pdf_file list" where
  "match_targets all_s3_files [] found_files = found_files"
| "match_targets all_s3_files (target # targets) found_files =
     (let target_file = strip target
      in if target_file = [] then match_targets all_s3_files targets found_files
         else if exact_matches all_s3_files target_file \<noteq> []
           then match_targets all_s3_files targets
                  (found_files @ exact_matches all_s3_files target_file)
         else if partial_matches all_s3_files target_file \<noteq> []
           then match_targets all_s3_files targets
                  (found_files @ partial_matches all_s3_files target_file)
         else match_targets all_s3_files targets found_files)"

text \<open>
  The function returns the pair \<^verbatim>\<open>(found_files, all_s3_files)\<close>; an exception of the
  listing is caught, reported with \<^verbatim>\<open>st.error\<close>, and answered with
  \<^verbatim>\<open>([], [])\<close>.
\<close>

definition find_specific_pdfs ::
  "s3_client \<Rightarrow> string \<Rightarrow> string list \<Rightarrow> string \<Rightarrow> (pdf_file list \<times> pdf_file list) \<times> event list" where
  "find_specific_pdfs s3 bucket target_files prefix =
     (case list_pages s3 bucket prefix of
        Inr pages \<Rightarrow>
          (let all_s3_files = scan_pages pages [];
               found_files = match_targets all_s3_files target_files []
           in ((found_files, all_s3_files), [ListObjectsV2 bucket prefix]))
      | Inl ClientError \<Rightarrow>
          (([], []), [ListObjectsV2 bucket prefix, StError ErrorAccessingS3Bucket])
      | Inl OtherException \<Rightarrow>
          (([], []), [ListObjectsV2 bucket prefix, StError UnexpectedError]))"

subsection \<open>\<^verbatim>\<open>search_by_pattern\<close>\<close>

text \<open>
  \<^verbatim>\<open>
  for page in pages:
      if 'Contents' in page:
          for obj in page['Contents']:
              if obj['Key'].lower().endswith('.pdf'):
                  if pattern_regex.search(obj['Key']) or pattern_regex.search(obj['Key'].split('/')[-1]):
                      found_files.append({...})
  \<close>
\<close>

fun search_contents :: "pattern_object \<Rightarrow> s3_object list \<Rightarrow> pdf_file list \<Rightarrow> pdf_file list" where
  "search_contents pattern_regex [] found_files = found_files"
| "search_contents pattern_regex (obj # objs) found_files =
     (if endswith (lower (Key obj)) ''.pdf''
      then (if pattern_regex (Key obj) \<or> pattern_regex (last_segment (Key obj))
            then search_contents pattern_regex objs (found_files @ [pdf_entry obj])
            else search_contents pattern_regex objs found_files)
      else search_contents pattern_regex objs found_files)"

fun search_pages :: "pattern_object \<Rightarrow> page list \<Rightarrow> pdf_file list \<Rightarrow> pdf_file list" where
  "search_pages pattern_regex [] found_files = found_files"
| "search_pages pattern_regex (None # pages) found_files =
     search_pages pattern_regex pages found_files"
| "search_pages pattern_regex (Some contents # pages) found_files =
     search_pages pattern_regex pages (search_contents pattern_regex contents found_files)"

text \<open>
  \<^verbatim>\<open>paginator.paginate(...)\<close> only builds the iterator; the requests are sent by the
  \<^verbatim>\<open>for\<close> loop, which comes after \<^verbatim>\<open>re.compile\<close>.  So an exception of
  \<^verbatim>\<open>re.compile\<close> is reported before any request: \<^verbatim>\<open>re.error\<close> by
  \<^verbatim>\<open>except re.error\<close>, any other by \<^verbatim>\<open>except Exception\<close>, which also catches
  every exception of the listing.
\<close>

definition search_by_pattern ::
  "(string \<Rightarrow> compile_result) \<Rightarrow> s3_client \<Rightarrow> string \<Rightarrow> string \<Rightarrow> string
     \<Rightarrow> pdf_file list \<times> event list" where
  "search_by_pattern ext s3 bucket pattern prefix =
     (case re_compile ext pattern of
        RaisesReError \<Rightarrow> ([], [StError InvalidRegexPattern])
      | RaisesOther \<Rightarrow> ([], [StError ErrorSearchingFiles])
      | Compiled pattern_regex \<Rightarrow>
          (case list_pages s3 bucket prefix of
             Inr pages \<Rightarrow> (search_pages pattern_regex pages [], [ListObjectsV2 bucket prefix])
           | Inl e \<Rightarrow> ([], [ListObjectsV2 bucket prefix, StError ErrorSearchingFiles])))"

subsection \<open>\<^verbatim>\<open>download_file\<close> and \<^verbatim>\<open>create_zip_file\<close>\<close>

definition download_file :: "s3_client \<Rightarrow> string \<Rightarrow> string \<Rightarrow> bytes option \<times> event list" where
  "download_file s3 bucket key =
     (case get_object s3 bucket key of
        Inr body \<Rightarrow> (Some body, [GetObject bucket key])
      | Inl e \<Rightarrow> (None, [GetObject bucket key, StError (ErrorDownloading key)]))"

text \<open>
  The archive is modelled as the library's reader sees it: its members in the order they
  were written, each with its name, its compression method and its data as stored, that
  is, deflated.  The deflate coding is a parameter (\<open>deflate\<close>, and \<open>inflate\<close> for
  reading); the headers and the directory of the ZIP format are not modelled.

  \<^verbatim>\<open>writestr(name, data)\<close> builds a \<^verbatim>\<open>ZipInfo\<close>, which cuts the name at the first
  NUL character, and then reads the last character of the name, so that an empty name
  raises \<^verbatim>\<open>IndexError\<close> (zipfile of Python 3.11; the path separator is \<^verbatim>\<open>/\<close>).  It
  adds the member also when the name is already there (the library warns, it does not
  raise).
\<close>

datatype compression = ZIP_STORED | ZIP_DEFLATED

datatype py_error = IndexError

record zip_member =
  filename :: string
  compress_type :: compression
  compressed :: bytes

type_synonym zip_archive = "zip_member list"

definition writestr :: "(bytes \<Rightarrow> bytes) \<Rightarrow> zip_archive \<Rightarrow> string \<Rightarrow> bytes \<Rightarrow> py_error + zip_archive" where
  "writestr deflate zip_file arcname data =
     (let name = takeWhile (\<lambda>c. c \<noteq> CHR 0x00) arcname
      in if name = [] then Inl IndexError
         else Inr (zip_file @
                [\<lparr>filename = name, compress_type = ZIP_DEFLATED, compressed = deflate data\<rparr>]))"

text \<open>
  \<^verbatim>\<open>
  with zipfile.ZipFile(zip_buffer, 'w', zipfile.ZIP_DEFLATED) as zip_file:
      for file_name, file_data in files_data.items():
          clean_name = file_name.split('/')[-1]
          zip_file.writestr(clean_name, file_data)
  \<close>
  A dictionary is the list of its items in insertion order.  An exception of
  \<^verbatim>\<open>writestr\<close> ends the loop and leaves the function.
\<close>

type_synonym files_dict = "(string \<times> bytes) list"

fun write_members :: "(bytes \<Rightarrow> bytes) \<Rightarrow> files_dict \<Rightarrow> zip_archive \<Rightarrow> py_error + zip_archive" where
  "write_members deflate [] zip_file = Inr zip_file"
| "write_members deflate ((file_name, file_data) # items) zip_file =
     (let clean_name = last_segment file_name
      in case writestr deflate zip_file clean_name file_data of
           Inl e \<Rightarrow> Inl e
         | Inr zip_file' \<Rightarrow> write_members deflate items zip_file')"

definition create_zip_file :: "(bytes \<Rightarrow> bytes) \<Rightarrow> files_dict \<Rightarrow> py_error + zip_archive" where
  "create_zip_file deflate files_data = write_members deflate files_data []"

text \<open>
  Reading an archive: \<^verbatim>\<open>read(name)\<close> gives the data of the member written last under
  the name (\<open>None\<close> for the \<^verbatim>\<open>KeyError\<close> of an unknown name), and \<^verbatim>\<open>extractall\<close>
  writes the members in order, a later one over an earlier one of the same name.
\<close>

definition zip_read :: "(bytes \<Rightarrow> bytes) \<Rightarrow> zip_archive \<Rightarrow> string \<Rightarrow> bytes option" where
  "zip_read inflate zip_file name =
     (case filter (\<lambda>m. filename m = name) zip_file of
        [] \<Rightarrow> None
      | m # ms \<Rightarrow> Some (inflate (compressed (last (m # ms)))))"


subsection \<open>The script: search, report of missing names, bulk download\<close>

text \<open>
  \<^verbatim>\<open>
  found_names = {f['FileName'].lower() for f in found_files}
  target_names_lower = {name.lower() for name in target_files}
  missing_files = target_names_lower - found_names
  \<close>
  (lines 240--242, reached when \<^verbatim>\<open>found_files\<close> is not empty; the names of
  \<^verbatim>\<open>missing_files\<close> are shown under ``Could not find''.)
\<close>

definition missing_files :: "pdf_file list \<Rightarrow> string list \<Rightarrow> string set" where
  "missing_files found_files target_files =
     (let found_names = set (map (\<lambda>f. lower (FileName f)) found_files);
          target_names_lower = set (map lower target_files)
      in target_names_lower - found_names)"

text \<open>
  The three extraction methods (lines 231--275), each with the list the script binds to
  \<^verbatim>\<open>found_files\<close>; the display and the session state are not modelled.
\<close>

datatype extraction_method =
    SpecificFilenames "string list"
  | PatternSearch string
  | BrowseAllPDFs

fun search_for_pdfs ::
  "(string \<Rightarrow> compile_result) \<Rightarrow> s3_client \<Rightarrow> string \<Rightarrow> string \<Rightarrow> extraction_method
     \<Rightarrow> pdf_file list \<times> event list" where
  "search_for_pdfs ext s3 bucket_name prefix (SpecificFilenames target_files) =
     (case find_specific_pdfs s3 bucket_name target_files prefix of
        ((found_files, all_files), events) \<Rightarrow> (found_files, events))"
| "search_for_pdfs ext s3 bucket_name prefix (PatternSearch pattern) =
     search_by_pattern ext s3 bucket_name pattern prefix"
| "search_for_pdfs ext s3 bucket_name prefix BrowseAllPDFs =
     search_by_pattern ext s3 bucket_name ''.*'' prefix"

text \<open>
  \<^verbatim>\<open>
  files_data = {}
  for i, file_info in enumerate(selected_files):
      file_data = download_file(s3_client, bucket_name, file_info['Key'])
      if file_data:
          files_data[file_info['FileName']] = file_data
  if files_data:
      zip_data = create_zip_file(files_data)
  \<close>
  \<open>dict_set\<close> is the assignment \<^verbatim>\<open>d[k] = v\<close>: a key already present keeps its place.
  \<^verbatim>\<open>if file_data\<close> is false for \<^verbatim>\<open>None\<close> and for the empty byte string.  The
  progress bar is left out.
\<close>

fun dict_set :: "files_dict \<Rightarrow> string \<Rightarrow> bytes \<Rightarrow> files_dict" where
  "dict_set [] k v = [(k, v)]"
| "dict_set ((k', v') # items) k v =
     (if k' = k then (k, v) # items else (k', v') # dict_set items k v)"

fun download_selected ::
  "s3_client \<Rightarrow> string \<Rightarrow> pdf_file list \<Rightarrow> files_dict \<Rightarrow> event list \<Rightarrow> files_dict \<times> event list" where
  "download_selected s3 bucket_name [] files_data events = (files_data, events)"
| "download_selected s3 bucket_name (file_info # selected_files) files_data events =
     (case download_file s3 bucket_name (Key file_info) of
        (file_data, evs) \<Rightarrow>
          download_selected s3 bucket_name selected_files
            (case file_data of
               None \<Rightarrow> files_data
             | Some d \<Rightarrow> if d \<noteq> [] then dict_set files_data (FileName file_info) d else files_data)
            (events @ evs))"

text \<open>
  The result is the outcome of \<^verbatim>\<open>create_zip_file(files_data)\<close>, where it is called
  (an exception of it is not caught by the script), and the events.
\<close>

definition download_selected_as_zip ::
  "(bytes \<Rightarrow> bytes) \<Rightarrow> s3_client \<Rightarrow> string \<Rightarrow> pdf_file list
     \<Rightarrow> (py_error + zip_archive) option \<times> event list" where
  "download_selected_as_zip deflate s3 bucket_name selected_files =
     (case download_selected s3 bucket_name selected_files [] [] of
        (files_data, events) \<Rightarrow>
          (if files_data \<noteq> [] then Some (create_zip_file deflate files_data) else None, events))"

section \<open>Notions used in the statements\<close>

text \<open>All the objects of a listing, page after page.\<close>

definition listed_objects :: "page list \<Rightarrow> s3_object list" where
  "listed_objects pages =
     concat (map (\<lambda>page. case page of None \<Rightarrow> [] | Some contents \<Rightarrow> contents) pages)"

text \<open>
  The entries the specification asks for one requested name: all the exact matches when
  there is one, and otherwise all the substring matches.
\<close>

definition matches_for :: "pdf_file list \<Rightarrow> string \<Rightarrow> pdf_file list" where
  "matches_for catalog name =
     (if exact_matches catalog name \<noteq> [] then exact_matches catalog name
      else partial_matches catalog name)"

text \<open>The items of a mapping with each logical name replaced by its base name.\<close>

definition base_items :: "files_dict \<Rightarrow> (string \<times> bytes) list" where
  "base_items files_data =
     map (\<lambda>(file_name, file_data). (last_segment file_name, file_data)) files_data"

text \<open>
  The selected files whose download succeeds, with the body received, in selection order;
  and the requests and error messages of a bulk download.
\<close>

definition successful_downloads :: "s3_client \<Rightarrow> string \<Rightarrow> pdf_file list \<Rightarrow> files_dict" where
  "successful_downloads s3 bucket selected =
     concat (map (\<lambda>f. case get_object s3 bucket (Key f) of
                          Inr body \<Rightarrow> [(FileName f, body)] | Inl e \<Rightarrow> []) selected)"

definition download_events :: "s3_client \<Rightarrow> string \<Rightarrow> pdf_file list \<Rightarrow> event list" where
  "download_events s3 bucket selected =
     concat (map (\<lambda>f. case get_object s3 bucket (Key f) of
                          Inr body \<Rightarrow> [GetObject bucket (Key f)]
                        | Inl e \<Rightarrow> [GetObject bucket (Key f), StError (ErrorDownloading (Key f))])
               selected)"

subsection \<open>Example buckets\<close>

text \<open>
  A bucket that lists the given pages and holds the given bodies (a key without a body
  cannot be fetched), and a client whose every call fails.
\<close>

definition bucket_of :: "page list \<Rightarrow> (string \<times> bytes) list \<Rightarrow> s3_client" where
  "bucket_of pages bodies =
     \<lparr>list_pages = (\<lambda>bucket prefix. Inr pages),
      get_object = (\<lambda>bucket key. case map_of bodies key of
                                     Some body \<Rightarrow> Inr body | None \<Rightarrow> Inl ClientError)\<rparr>"

definition failing_client :: "exn \<Rightarrow> s3_client" where
  "failing_client e = \<lparr>list_pages = (\<lambda>bucket prefix. Inl e), get_object = (\<lambda>bucket key. Inl e)\<rparr>"

definition report_pdf :: s3_object where
  "report_pdf = \<lparr>Key = ''docs/Report.PDF'', Size = 1536, LastModified = 0\<rparr>"

definition report_v2_pdf :: s3_object where
  "report_v2_pdf = \<lparr>Key = ''docs/Report_v2.pdf'', Size = 1280, LastModified = 0\<rparr>"

definition notes_txt :: s3_object where
  "notes_txt = \<lparr>Key = ''docs/notes.txt'', Size = 12, LastModified = 0\<rparr>"

definition annual_report_pdf :: s3_object where
  "annual_report_pdf = \<lparr>Key = ''annual_report_2024.pdf'', Size = 0, LastModified = 0\<rparr>"

definition a_pdf :: s3_object where
  "a_pdf = \<lparr>Key = ''a.pdf'', Size = 5, LastModified = 0\<rparr>"

definition a_x_pdf :: s3_object where
  "a_x_pdf = \<lparr>Key = ''a/x.pdf'', Size = 1, LastModified = 0\<rparr>"

definition b_x_pdf :: s3_object where
  "b_x_pdf = \<lparr>Key = ''b/x.pdf'', Size = 1, LastModified = 0\<rparr>"

definition example_pages :: "page list" where
  "example_pages = [Some [report_pdf, report_v2_pdf, notes_txt], None, Some [annual_report_pdf]]"

definition example_bodies :: "(string \<times> bytes) list" where
  "example_bodies = [(''a/x.pdf'', [1]), (''b/x.pdf'', [2]), (''docs/Report.PDF'', [3, 4])]"

section \<open>Properties of \<^verbatim>\<open>format_file_size\<close>\<close>

declare excess_bits.simps [simp del] show_digits.simps [simp del] size_loop.simps [simp del]

lemma excess_bits_small: "n < 2 ^ 53 \<Longrightarrow> excess_bits n = 0"
  by (subst excess_bits.simps) simp

lemma float_of_nonneg_small: "n < 2 ^ 53 \<Longrightarrow> float_of_nonneg n = n"
  by (simp add: float_of_nonneg_def excess_bits_small)

lemma float_of_int_small: "0 \<le> n \<Longrightarrow> n < 2 ^ 53 \<Longrightarrow> float_of_int n = of_int n"
  by (simp add: float_of_int_def float_of_nonneg_small)

lemma div_excess_bits: "2 ^ 52 \<le> n \<Longrightarrow> 2 ^ 52 \<le> n div 2 ^ excess_bits n"
proof (induction n rule: excess_bits.induct)
  case (1 n)
  show ?case
  proof (cases "n < 2 ^ 53")
    case True
    with "1.prems" show ?thesis by (simp add: excess_bits_small)
  next
    case False
    then have "2 ^ 52 \<le> n div 2" by simp
    with "1.IH" False have "2 ^ 52 \<le> (n div 2) div 2 ^ excess_bits (n div 2)" by simp
    moreover have "excess_bits n = Suc (excess_bits (n div 2))"
      using False by (subst excess_bits.simps) simp
    ultimately show ?thesis
      by (simp add: zdiv_zmult2_eq)
  qed
qed

lemma float_of_nonneg_large: 
  assumes "2 ^ 52 \<le> n" shows "2 ^ 52 \<le> float_of_nonneg n"
proof -
  define sh where "sh = excess_bits n"
  define q where "q = n div 2 ^ sh"
  have q: "2 ^ 52 \<le> q" unfolding q_def sh_def by (rule div_excess_bits [OF assms])
  have p: "(1::int) \<le> 2 ^ sh" by simp
  have "q \<le> q * 2 ^ sh" using q p by (simp add: mult_le_cancel_left1)
  moreover have "q * 2 ^ sh \<le> float_of_nonneg n"
    by (simp add: float_of_nonneg_def Let_def sh_def [symmetric] q_def [symmetric] distrib_right)
  ultimately show ?thesis using q by linarith
qed

lemma float_of_int_ge: "1024 ^ 3 \<le> n \<Longrightarrow> 1024 ^ 3 \<le> float_of_int n"
proof (cases "n < 2 ^ 53")
  case True
  assume "1024 ^ 3 \<le> n"
  with True show ?thesis by (simp add: float_of_int_small)
next
  case False
  then have "2 ^ 52 \<le> float_of_nonneg n" by (intro float_of_nonneg_large) simp
  then have "(2 ^ 52 :: rat) \<le> of_int (float_of_nonneg n)"
    by (metis of_int_le_iff of_int_numeral of_int_power)
  with False show ?thesis by (simp add: float_of_int_def)
qed

lemma size_loop_stop:
  "\<not> (num_ge x 1024 \<and> i < 3) \<Longrightarrow> size_loop x i = (x, i)"
  by (subst size_loop.simps) (auto simp: size_names_def)

lemma size_loop_step:
  "num_ge x 1024 \<Longrightarrow> i < 3 \<Longrightarrow> size_loop x i = size_loop (PyFloat (to_float x / 1024)) (Suc i)"
  by (subst size_loop.simps) (simp add: size_names_def truediv_def)

lemma size_loop_unfold:
  "size_loop (PyInt n) 0 =
     (if n < 1024 then (PyInt n, 0)
      else if n < 1024 ^ 2 then (PyFloat (of_int n / 1024), 1)
      else if n < 1024 ^ 3 then (PyFloat (of_int n / 1024 / 1024), 2)
      else (PyFloat (float_of_int n / 1024 / 1024 / 1024), 3))"
proof -
  consider (B) "n < 1024" | (KB) "1024 \<le> n" "n < 1024 ^ 2"
    | (MB) "1024 ^ 2 \<le> n" "n < 1024 ^ 3" | (GB) "1024 ^ 3 \<le> n"
    by linarith
  then show ?thesis
  proof cases
    case B
    then show ?thesis by (simp add: size_loop_stop)
  next
    case KB
    then have f: "float_of_int n = of_int n" by (simp add: float_of_int_small)
    have "size_loop (PyInt n) 0 = size_loop (PyFloat (of_int n / 1024)) (Suc 0)"
      using KB f by (simp add: size_loop_step)
    also have "\<dots> = (PyFloat (of_int n / 1024), 1)"
      using KB by (simp add: size_loop_stop)
    finally show ?thesis using KB by simp
  next
    case MB
    then have f: "float_of_int n = of_int n" by (simp add: float_of_int_small)
    have "size_loop (PyInt n) 0 = size_loop (PyFloat (of_int n / 1024)) (Suc 0)"
      using MB f by (simp add: size_loop_step)
    also have "\<dots> = size_loop (PyFloat (of_int n / 1024 / 1024)) (Suc (Suc 0))"
      using MB by (simp add: size_loop_step)
    also have "\<dots> = (PyFloat (of_int n / 1024 / 1024), 2)"
      using MB by (simp add: size_loop_stop)
    finally show ?thesis using MB by simp
  next
    case GB
    have big: "(1024 :: rat) ^ 3 \<le> float_of_int n"
      using GB by (rule float_of_int_ge)
    have "size_loop (PyInt n) 0 = size_loop (PyFloat (float_of_int n / 1024)) (Suc 0)"
      using GB by (simp add: size_loop_step)
    also have "\<dots> = size_loop (PyFloat (float_of_int n / 1024 / 1024)) (Suc (Suc 0))"
      using big by (simp add: size_loop_step)
    also have "\<dots> = size_loop (PyFloat (float_of_int n / 1024 / 1024 / 1024)) (Suc (Suc (Suc 0)))"
      using big by (simp add: size_loop_step)
    also have "\<dots> = (PyFloat (float_of_int n / 1024 / 1024 / 1024), 3)"
      by (simp add: size_loop_stop)
    finally show ?thesis using GB by simp
  qed
qed

lemma digit_char: "0 \<le> k \<Longrightarrow> k < 10 \<Longrightarrow> char_of (48 + k :: int) \<in> set ''0123456789''"
proof -
  assume "0 \<le> k" "k < 10"
  then have "k = 0 \<or> k = 1 \<or> k = 2 \<or> k = 3 \<or> k = 4 \<or> k = 5 \<or> k = 6 \<or> k = 7 \<or> k = 8 \<or> k = 9"
    by presburger
  then show ?thesis
    by (elim disjE; hypsubst; code_simp)
qed

lemma show_digits_digits:
  "0 \<le> n \<Longrightarrow> show_digits n \<noteq> [] \<and> set (show_digits n) \<subseteq> set ''0123456789''"
proof (induction n rule: show_digits.induct)
  case (1 n)
  show ?case
  proof (cases "n < 10")
    case True
    with "1.prems" digit_char [of n] show ?thesis
      by (subst (1 2) show_digits.simps) simp
  next
    case False
    with "1.prems" have "0 \<le> n div 10" by simp
    with "1.IH" False have ih: "set (show_digits (n div 10)) \<subseteq> set ''0123456789''" by simp
    have "char_of (48 + n mod 10) \<in> set ''0123456789''"
      by (rule digit_char) simp_all
    with ih False show ?thesis
      by (subst (1 2) show_digits.simps) simp
  qed
qed

lemma show_digits_single: "0 \<le> k \<Longrightarrow> k < 10 \<Longrightarrow> show_digits k = [char_of (48 + k)]"
  by (subst show_digits.simps) simp

lemma round_half_even_nonneg: "0 \<le> x \<Longrightarrow> 0 \<le> round_half_even x"
  by (auto simp: round_half_even_def Let_def)

lemma format_1f_shape:
  "\<exists>sgn ds d. format_1f a = sgn @ ds @ ''.'' @ [d] \<and> (sgn = [] \<or> sgn = ''-'') \<and> ds \<noteq> []
     \<and> set (d # ds) \<subseteq> set ''0123456789''"
proof -
  define t where "t = round_half_even (\<bar>to_float a\<bar> * 10)"
  have t: "0 \<le> t" unfolding t_def by (rule round_half_even_nonneg) simp
  have d: "show_digits (t mod 10) = [char_of (48 + t mod 10)]"
    by (rule show_digits_single) simp_all
  have d': "char_of (48 + t mod 10) \<in> set ''0123456789''"
    by (rule digit_char) simp_all
  from t have "0 \<le> t div 10" by simp
  from show_digits_digits [OF this]
  have ds: "show_digits (t div 10) \<noteq> []" "set (show_digits (t div 10)) \<subseteq> set ''0123456789''"
    by simp_all
  have "format_1f a = (if to_float a < 0 then ''-'' else []) @ show_digits (t div 10) @ ''.''
      @ [char_of (48 + t mod 10)]"
    by (simp add: format_1f_def Let_def t_def [symmetric] d)
  with ds d' show ?thesis
    by (intro exI [of _ "if to_float a < 0 then ''-'' else []"] exI [of _ "show_digits (t div 10)"]
        exI [of _ "char_of (48 + t mod 10)"]) simp
qed

text \<open>
  Claim C9.  \<^verbatim>\<open>format_file_size(0)\<close> is \<^verbatim>\<open>"0B"\<close>.  Any other size is divided by
  1024 while it is at least 1024, through the units B, KB, MB and GB and no further
  (from \<open>1024 ^ 3\<close> bytes on the unit is GB, whatever the size); the final quotient is
  printed with exactly one digit after the point, then a space and the unit.  So
  \<^verbatim>\<open>format_file_size(1536)\<close> is \<^verbatim>\<open>"1.5 KB"\<close>, \<^verbatim>\<open>format_file_size(1073741824)\<close> is
  \<^verbatim>\<open>"1.0 GB"\<close>, and 2048 GB are printed as \<^verbatim>\<open>"2048.0 GB"\<close>.
\<close>

theorem format_file_size_units:
  "format_file_size n =
     (if n = 0 then ''0B''
      else if n < 1024 then format_1f (PyInt n) @ '' B''
      else if n < 1024 ^ 2 then format_1f (PyFloat (of_int n / 1024)) @ '' KB''
      else if n < 1024 ^ 3 then format_1f (PyFloat (of_int n / 1024 / 1024)) @ '' MB''
      else format_1f (PyFloat (float_of_int n / 1024 / 1024 / 1024)) @ '' GB'')
   \<and> (\<exists>sgn ds d. format_1f a = sgn @ ds @ ''.'' @ [d] \<and> (sgn = [] \<or> sgn = ''-'') \<and> ds \<noteq> []
         \<and> set (d # ds) \<subseteq> set ''0123456789'')
   \<and> format_file_size 0 = ''0B''
   \<and> format_file_size 1536 = ''1.5 KB''
   \<and> format_file_size 1073741824 = ''1.0 GB''
   \<and> format_file_size (2048 * 1024 ^ 3) = ''2048.0 GB''"
proof (intro conjI)
  show "format_file_size n =
     (if n = 0 then ''0B''
      else if n < 1024 then format_1f (PyInt n) @ '' B''
      else if n < 1024 ^ 2 then format_1f (PyFloat (of_int n / 1024)) @ '' KB''
      else if n < 1024 ^ 3 then format_1f (PyFloat (of_int n / 1024 / 1024)) @ '' MB''
      else format_1f (PyFloat (float_of_int n / 1024 / 1024 / 1024)) @ '' GB'')"
    by (simp add: format_file_size_def size_loop_unfold size_names_def)
  show "\<exists>sgn ds d. format_1f a = sgn @ ds @ ''.'' @ [d] \<and> (sgn = [] \<or> sgn = ''-'') \<and> ds \<noteq> []
         \<and> set (d # ds) \<subseteq> set ''0123456789''"
    by (rule format_1f_shape)
  show "format_file_size 0 = ''0B''" by (simp add: format_file_size_def)
  show "format_file_size 1536 = ''1.5 KB''" by code_simp
  show "format_file_size 1073741824 = ''1.0 GB''" by code_simp
  show "format_file_size (2048 * 1024 ^ 3) = ''2048.0 GB''" by code_simp
qed

theorem format_file_size_units_witness:
  "format_file_size 1280 = ''1.2 KB'' \<and> format_file_size 1023 = ''1023.0 B''
   \<and> format_file_size 1048575 = ''1024.0 KB''"
proof -
  have a: "format_file_size 1280 = format_1f (PyFloat (of_int 1280 / 1024)) @ '' KB''"
    using format_file_size_units [of 1280] by simp
  have b: "format_file_size 1023 = format_1f (PyInt 1023) @ '' B''"
    using format_file_size_units [of 1023] by simp
  have c: "format_file_size 1048575 = format_1f (PyFloat (of_int 1048575 / 1024)) @ '' KB''"
    using format_file_size_units [of 1048575] by simp
  have "format_1f (PyFloat (of_int 1280 / 1024)) = ''1.2''" by code_simp
  moreover have "format_1f (PyInt 1023) = ''1023.0''" by code_simp
  moreover have "format_1f (PyFloat (of_int 1048575 / 1024)) = ''1024.0''" by code_simp
  ultimately show ?thesis using a b c by simp
qed

section \<open>Strings and keys\<close>

lemma py_in_iff: "py_in sub s \<longleftrightarrow> (\<exists>pre post. s = pre @ sub @ post)"
proof (induction s)
  case Nil
  show ?case by auto
next
  case (Cons c cs)
  have "startswith (c # cs) sub \<longleftrightarrow> (\<exists>post. c # cs = sub @ post)"
  proof
    assume "startswith (c # cs) sub"
    then have "c # cs = sub @ drop (length sub) (c # cs)"
      using append_take_drop_id [of "length sub" "c # cs"] by (simp add: startswith_def)
    then show "\<exists>post. c # cs = sub @ post" ..
  next
    assume "\<exists>post. c # cs = sub @ post"
    then obtain post where "c # cs = sub @ post" ..
    then show "startswith (c # cs) sub" by (simp add: startswith_def)
  qed
  moreover have "(\<exists>pre post. c # cs = pre @ sub @ post) \<longleftrightarrow>
      (\<exists>post. c # cs = sub @ post) \<or> (\<exists>pre post. cs = pre @ sub @ post)"
  proof
    assume "\<exists>pre post. c # cs = pre @ sub @ post"
    then obtain pre post where e: "c # cs = pre @ sub @ post" by blast
    show "(\<exists>post. c # cs = sub @ post) \<or> (\<exists>pre post. cs = pre @ sub @ post)"
    proof (cases pre)
      case Nil
      with e show ?thesis by auto
    next
      case (Cons a pre')
      with e have "cs = pre' @ sub @ post" by simp
      then show ?thesis by blast
    qed
  next
    assume "(\<exists>post. c # cs = sub @ post) \<or> (\<exists>pre post. cs = pre @ sub @ post)"
    then show "\<exists>pre post. c # cs = pre @ sub @ post"
    proof
      assume "\<exists>post. c # cs = sub @ post"
      then obtain post where "c # cs = [] @ sub @ post" by auto
      then show ?thesis by blast
    next
      assume "\<exists>pre post. cs = pre @ sub @ post"
      then obtain pre post where "c # cs = (c # pre) @ sub @ post" by auto
      then show ?thesis by blast
    qed
  qed
  ultimately show ?case using Cons.IH by simp
qed

lemma split_fields_not_Nil: "split_fields sep field s \<noteq> []"
  by (induction s arbitrary: field) simp_all

lemma split_fields_no_sep: "sep \<notin> set s \<Longrightarrow> split_fields sep field s = [field @ s]"
  by (induction s arbitrary: field) auto

lemma last_split_fields:
  "sep \<notin> set rest \<Longrightarrow> last (split_fields sep field (pre @ sep # rest)) = rest"
  by (induction pre arbitrary: field) (auto simp: split_fields_not_Nil split_fields_no_sep)

lemma last_segment_spec:
  "CHR ''/'' \<notin> set (last_segment key) \<and>
   (if CHR ''/'' \<in> set key then \<exists>dir. key = dir @ ''/'' @ last_segment key
    else last_segment key = key)"
proof (cases "CHR ''/'' \<in> set key")
  case True
  from split_list_last [OF this]
  obtain dir rest where k: "key = dir @ CHR ''/'' # rest" and r: "CHR ''/'' \<notin> set rest"
    by blast
  then have "last_segment key = rest" by (simp add: last_segment_def split_on_def last_split_fields)
  with k r True show ?thesis by auto
next
  case False
  then show ?thesis by (simp add: last_segment_def split_on_def split_fields_no_sep)
qed

section \<open>The catalog and the two searches\<close>

lemma scan_contents_eq:
  "scan_contents objs acc = acc @ map pdf_entry (filter (\<lambda>obj. endswith (lower (Key obj)) ''.pdf'') objs)"
  by (induction objs arbitrary: acc) simp_all

lemma scan_pages_eq:
  "scan_pages pages acc = acc @ map pdf_entry (filter (\<lambda>obj. endswith (lower (Key obj)) ''.pdf'') (listed_objects pages))"
proof (induction pages acc rule: scan_pages.induct)
  case (1 acc)
  show ?case by (simp add: listed_objects_def)
next
  case (2 pages acc)
  then show ?case by (simp add: listed_objects_def)
next
  case (3 contents pages acc)
  then show ?case by (simp add: listed_objects_def scan_contents_eq)
qed

lemma search_contents_eq:
  "search_contents m objs acc =
     acc @ filter (\<lambda>f. m (Key f) \<or> m (FileName f))
             (map pdf_entry (filter (\<lambda>obj. endswith (lower (Key obj)) ''.pdf'') objs))"
  by (induction objs arbitrary: acc) (simp_all add: pdf_entry_def)

lemma search_pages_eq:
  "search_pages m pages acc =
     acc @ filter (\<lambda>f. m (Key f) \<or> m (FileName f))
             (map pdf_entry (filter (\<lambda>obj. endswith (lower (Key obj)) ''.pdf'') (listed_objects pages)))"
proof (induction m pages acc rule: search_pages.induct)
  case (1 m acc)
  show ?case by (simp add: listed_objects_def)
next
  case (2 m pages acc)
  then show ?case by (simp add: listed_objects_def)
next
  case (3 m contents pages acc)
  then show ?case by (simp add: listed_objects_def search_contents_eq)
qed

lemma match_targets_eq:
  "match_targets catalog targets acc =
     acc @ concat (map (matches_for catalog) (filter (\<lambda>t. t \<noteq> []) (map strip targets)))"
  by (induction targets arbitrary: acc) (simp_all add: Let_def matches_for_def)

lemma catalog_eq:
  "list_pages s3 bucket prefix = Inr pages \<Longrightarrow>
   find_specific_pdfs s3 bucket target_files prefix =
     ((match_targets (scan_pages pages []) target_files [], scan_pages pages []),
      [ListObjectsV2 bucket prefix])"
  by (simp add: find_specific_pdfs_def Let_def)

lemma match_targets_Nil: "match_targets [] target_files [] = []"
  by (simp add: match_targets_eq matches_for_def exact_matches_def partial_matches_def)

lemma set_matches_for: "set (matches_for catalog name) \<subseteq> set catalog"
  by (auto simp: matches_for_def exact_matches_def partial_matches_def)

lemma set_match_targets: "set (match_targets catalog targets []) \<subseteq> set catalog"
  using set_matches_for by (fastforce simp: match_targets_eq)

lemma pdf_entry_props:
  "endswith (lower (Key obj)) ''.pdf'' \<Longrightarrow>
   endswith (lower (Key (pdf_entry obj))) ''.pdf'' \<and>
   FileName (pdf_entry obj) = last_segment (Key (pdf_entry obj))"
  by (simp add: pdf_entry_def)

lemma catalog_props:
  assumes "f \<in> set (scan_pages pages [])"
  shows "endswith (lower (Key f)) ''.pdf'' \<and> FileName f = last_segment (Key f)"
proof -
  from assms obtain obj where "endswith (lower (Key obj)) ''.pdf''" "f = pdf_entry obj"
    by (auto simp: scan_pages_eq)
  then show ?thesis by (simp add: pdf_entry_props)
qed

lemma search_by_pattern_subset:
  assumes "list_pages s3 bucket prefix = Inr pages"
  shows "set (fst (search_by_pattern ext s3 bucket pattern prefix)) \<subseteq> set (scan_pages pages [])"
  using assms
  by (auto simp: search_by_pattern_def search_pages_eq scan_pages_eq split: compile_result.splits)

lemma example_listing:
  "list_pages (bucket_of pages bodies) bucket prefix = Inr pages"
  by (simp add: bucket_of_def)

lemma example_catalog:
  "scan_pages example_pages [] = [pdf_entry report_pdf, pdf_entry report_v2_pdf, pdf_entry annual_report_pdf]"
  by code_simp

lemma example_file_names:
  "FileName (pdf_entry a_x_pdf) = ''x.pdf''" "Key (pdf_entry a_x_pdf) = ''a/x.pdf''"
  "FileName (pdf_entry b_x_pdf) = ''x.pdf''" "Key (pdf_entry b_x_pdf) = ''b/x.pdf''"
  "FileName (pdf_entry report_pdf) = ''Report.PDF''" "Key (pdf_entry report_pdf) = ''docs/Report.PDF''"
  "FileName (pdf_entry annual_report_pdf) = ''annual_report_2024.pdf''"
  "Key (pdf_entry annual_report_pdf) = ''annual_report_2024.pdf''"
  by code_simp+

lemma example_get_object:
  "get_object (bucket_of pages example_bodies) bucket ''a/x.pdf'' = Inr [1]"
  "get_object (bucket_of pages example_bodies) bucket ''b/x.pdf'' = Inr [2]"
  "get_object (bucket_of pages example_bodies) bucket ''docs/Report.PDF'' = Inr [3, 4]"
  "get_object (bucket_of pages example_bodies) bucket ''annual_report_2024.pdf'' = Inl ClientError"
  by (simp_all add: bucket_of_def example_bodies_def)

text \<open>
  Claim C4.  When the listing succeeds, the catalog (\<^verbatim>\<open>all_s3_files\<close>) holds one entry
  for each listed object whose lower-cased key ends in \<^verbatim>\<open>.pdf\<close>, in listing order, and
  no other object.  Every entry of the catalog, and every entry returned by
  \<^verbatim>\<open>find_specific_pdfs\<close> or \<^verbatim>\<open>search_by_pattern\<close>, has a key whose lower-case form
  ends in \<^verbatim>\<open>.pdf\<close>; its \<^verbatim>\<open>FileName\<close> is the part of the key after the last
  \<^verbatim>\<open>/\<close>, and the whole key when the key has no \<^verbatim>\<open>/\<close>.
\<close>

theorem catalog_entries_are_pdfs:
  assumes "list_pages s3 bucket prefix = Inr pages"
  shows "snd (fst (find_specific_pdfs s3 bucket target_files prefix)) =
           map pdf_entry (filter (\<lambda>obj. endswith (lower (Key obj)) ''.pdf'') (listed_objects pages))
       \<and> (\<forall>f \<in> set (snd (fst (find_specific_pdfs s3 bucket target_files prefix)))
                \<union> set (fst (fst (find_specific_pdfs s3 bucket target_files prefix)))
                \<union> set (fst (search_by_pattern ext s3 bucket pattern prefix)).
              endswith (lower (Key f)) ''.pdf''
            \<and> FileName f = last_segment (Key f)
            \<and> CHR ''/'' \<notin> set (FileName f)
            \<and> (if CHR ''/'' \<in> set (Key f) then \<exists>dir. Key f = dir @ ''/'' @ FileName f
                else FileName f = Key f))"
proof
  show "snd (fst (find_specific_pdfs s3 bucket target_files prefix)) =
           map pdf_entry (filter (\<lambda>obj. endswith (lower (Key obj)) ''.pdf'') (listed_objects pages))"
  proof -
    have "snd (fst (find_specific_pdfs s3 bucket target_files prefix)) = scan_pages pages []"
      by (simp add: catalog_eq [OF assms])
    also have "\<dots> = map pdf_entry (filter (\<lambda>obj. endswith (lower (Key obj)) ''.pdf'') (listed_objects pages))"
      by (simp add: scan_pages_eq)
    finally show ?thesis .
  qed
  show "\<forall>f \<in> set (snd (fst (find_specific_pdfs s3 bucket target_files prefix)))
                \<union> set (fst (fst (find_specific_pdfs s3 bucket target_files prefix)))
                \<union> set (fst (search_by_pattern ext s3 bucket pattern prefix)).
              endswith (lower (Key f)) ''.pdf''
            \<and> FileName f = last_segment (Key f)
            \<and> CHR ''/'' \<notin> set (FileName f)
            \<and> (if CHR ''/'' \<in> set (Key f) then \<exists>dir. Key f = dir @ ''/'' @ FileName f
                else FileName f = Key f)"
  proof
    fix f
    assume "f \<in> set (snd (fst (find_specific_pdfs s3 bucket target_files prefix)))
                \<union> set (fst (fst (find_specific_pdfs s3 bucket target_files prefix)))
                \<union> set (fst (search_by_pattern ext s3 bucket pattern prefix))"
    then have "f \<in> set (scan_pages pages [])"
      using set_match_targets [of "scan_pages pages []" target_files]
        search_by_pattern_subset [OF assms, of ext pattern]
      by (auto simp: catalog_eq [OF assms])
    from catalog_props [OF this] last_segment_spec [of "Key f"]
    show "endswith (lower (Key f)) ''.pdf''
            \<and> FileName f = last_segment (Key f)
            \<and> CHR ''/'' \<notin> set (FileName f)
            \<and> (if CHR ''/'' \<in> set (Key f) then \<exists>dir. Key f = dir @ ''/'' @ FileName f
                else FileName f = Key f)"
      by auto
  qed
qed

text \<open>The example bucket: three of its four objects are PDF files.\<close>

theorem catalog_entries_are_pdfs_witness:
  "snd (fst (find_specific_pdfs (bucket_of example_pages []) ''bucket'' [] [])) =
     [pdf_entry report_pdf, pdf_entry report_v2_pdf, pdf_entry annual_report_pdf]
   \<and> Key (pdf_entry report_pdf) = ''docs/Report.PDF''
   \<and> FileName (pdf_entry report_pdf) = ''Report.PDF''
   \<and> FileName (pdf_entry annual_report_pdf) = ''annual_report_2024.pdf''"
proof -
  have "map pdf_entry (filter (\<lambda>obj. endswith (lower (Key obj)) ''.pdf'') (listed_objects example_pages)) =
        [pdf_entry report_pdf, pdf_entry report_v2_pdf, pdf_entry annual_report_pdf]"
    by code_simp
  with catalog_entries_are_pdfs [OF example_listing, of example_pages "[]" "''bucket''" "[]"]
  show ?thesis by (simp add: example_file_names)
qed

section \<open>Matching by name\<close>

text \<open>
  Claim C1.  In name-list mode every requested name is trimmed and blank names are
  dropped.  For each remaining name, in the order requested: when some catalog entry has
  that \<^verbatim>\<open>FileName\<close> (compared in lower case), exactly the entries with that
  \<^verbatim>\<open>FileName\<close> are added and no substring match is tried for the name; when there is
  none, every entry whose lower-cased \<^verbatim>\<open>FileName\<close> contains the lower-cased name as
  a substring is added, possibly none.
\<close>

theorem find_specific_pdfs_matching:
  assumes "list_pages s3 bucket prefix = Inr pages"
  shows "fst (fst (find_specific_pdfs s3 bucket target_files prefix)) =
           concat (map (matches_for (scan_pages pages []))
                     (filter (\<lambda>t. t \<noteq> []) (map strip target_files)))
       \<and> (exact_matches catalog name \<noteq> [] \<longrightarrow> matches_for catalog name = exact_matches catalog name)
       \<and> (exact_matches catalog name = [] \<longrightarrow> matches_for catalog name = partial_matches catalog name)
       \<and> (f \<in> set (exact_matches catalog name) \<longleftrightarrow>
              f \<in> set catalog \<and> lower (FileName f) = lower name)
       \<and> (f \<in> set (partial_matches catalog name) \<longleftrightarrow>
              f \<in> set catalog \<and> (\<exists>pre post. lower (FileName f) = pre @ lower name @ post))"
proof (intro conjI)
  show "fst (fst (find_specific_pdfs s3 bucket target_files prefix)) =
           concat (map (matches_for (scan_pages pages []))
                     (filter (\<lambda>t. t \<noteq> []) (map strip target_files)))"
    by (simp add: catalog_eq [OF assms] match_targets_eq)
  show "exact_matches catalog name \<noteq> [] \<longrightarrow> matches_for catalog name = exact_matches catalog name"
    by (simp add: matches_for_def)
  show "exact_matches catalog name = [] \<longrightarrow> matches_for catalog name = partial_matches catalog name"
    by (simp add: matches_for_def)
  show "f \<in> set (exact_matches catalog name) \<longleftrightarrow>
              f \<in> set catalog \<and> lower (FileName f) = lower name"
    by (simp add: exact_matches_def)
  show "f \<in> set (partial_matches catalog name) \<longleftrightarrow>
              f \<in> set catalog \<and> (\<exists>pre post. lower (FileName f) = pre @ lower name @ post)"
    by (simp add: partial_matches_def py_in_iff)
qed

text \<open>
  With \<^verbatim>\<open>Report.PDF\<close> and \<^verbatim>\<open>Report_v2.pdf\<close> in the catalog, \<^verbatim>\<open>report.pdf\<close> finds
  only the first; \<^verbatim>\<open>report\<close> equals no file name and finds every name containing it.
\<close>

theorem find_specific_pdfs_matching_witness:
  "fst (fst (find_specific_pdfs (bucket_of example_pages []) ''bucket'' [''report.pdf''] [])) =
     [pdf_entry report_pdf]
   \<and> fst (fst (find_specific_pdfs (bucket_of example_pages []) ''bucket'' ['' report '', ''   ''] [])) =
     [pdf_entry report_pdf, pdf_entry report_v2_pdf, pdf_entry annual_report_pdf]"
proof
  have "fst (fst (find_specific_pdfs (bucket_of example_pages []) ''bucket'' [''report.pdf''] [])) =
        concat (map (matches_for (scan_pages example_pages []))
                  (filter (\<lambda>t. t \<noteq> []) (map strip [''report.pdf''])))"
    by (rule find_specific_pdfs_matching [OF example_listing, THEN conjunct1])
  also have "\<dots> = [pdf_entry report_pdf]"
    by code_simp
  finally show "fst (fst (find_specific_pdfs (bucket_of example_pages []) ''bucket'' [''report.pdf''] [])) =
     [pdf_entry report_pdf]" .
  have "fst (fst (find_specific_pdfs (bucket_of example_pages []) ''bucket'' ['' report '', ''   ''] [])) =
        concat (map (matches_for (scan_pages example_pages []))
                  (filter (\<lambda>t. t \<noteq> []) (map strip ['' report '', ''   ''])))"
    by (rule find_specific_pdfs_matching [OF example_listing, THEN conjunct1])
  also have "\<dots> = [pdf_entry report_pdf, pdf_entry report_v2_pdf, pdf_entry annual_report_pdf]"
    by code_simp
  finally show "fst (fst (find_specific_pdfs (bucket_of example_pages []) ''bucket'' ['' report '', ''   ''] [])) =
     [pdf_entry report_pdf, pdf_entry report_v2_pdf, pdf_entry annual_report_pdf]" .
qed

text \<open>
  What the script computes as \<^verbatim>\<open>missing_files\<close>, for requested names as it passes them
  (trimmed and not blank, line 185): the lower-cased names that have no exact match,
  whether or not the substring match found something for them.
\<close>

lemma missing_files_exact_only:
  assumes "\<forall>t \<in> set target_files. strip t = t \<and> t \<noteq> []"
  shows "missing_files (match_targets catalog target_files []) target_files =
           {lower t |t. t \<in> set target_files \<and> exact_matches catalog t = []}"
proof -
  let ?found = "match_targets catalog target_files []"
  have found: "lower t \<in> (\<lambda>f. lower (FileName f)) ` set ?found \<longleftrightarrow> exact_matches catalog t \<noteq> []"
    if t: "t \<in> set target_files" for t
  proof
    assume "lower t \<in> (\<lambda>f. lower (FileName f)) ` set ?found"
    then obtain f where f: "f \<in> set ?found" "lower (FileName f) = lower t" by auto
    with set_match_targets [of catalog target_files] have "f \<in> set catalog" by blast
    with f have "f \<in> set (exact_matches catalog t)" by (simp add: exact_matches_def)
    then show "exact_matches catalog t \<noteq> []" by auto
  next
    assume ne: "exact_matches catalog t \<noteq> []"
    then obtain f where f: "f \<in> set (exact_matches catalog t)"
      by (cases "exact_matches catalog t") auto
    from t assms have "t \<in> set (filter (\<lambda>t. t \<noteq> []) (map strip target_files))" by force
    with ne f have "f \<in> set ?found"
      by (auto simp: match_targets_eq matches_for_def)
    moreover from f have "lower (FileName f) = lower t" by (simp add: exact_matches_def)
    ultimately show "lower t \<in> (\<lambda>f. lower (FileName f)) ` set ?found" by force
  qed
  show ?thesis
  proof (intro set_eqI iffI)
    fix x
    assume "x \<in> missing_files ?found target_files"
    then obtain t where "t \<in> set target_files" "x = lower t"
      "lower t \<notin> (\<lambda>f. lower (FileName f)) ` set ?found"
      by (auto simp: missing_files_def)
    with found [of t] show "x \<in> {lower t |t. t \<in> set target_files \<and> exact_matches catalog t = []}"
      by blast
  next
    fix x
    assume "x \<in> {lower t |t. t \<in> set target_files \<and> exact_matches catalog t = []}"
    then obtain t where "t \<in> set target_files" "x = lower t" "exact_matches catalog t = []"
      by blast
    with found [of t] show "x \<in> missing_files ?found target_files"
      by (simp add: missing_files_def)
  qed
qed

text \<open>
  Claim C2.  The specification takes \<^verbatim>\<open>missing_files\<close> for the requested names that
  neither the exact nor the substring match found.  The script computes it as the
  lower-cased requested names that are not the lower-cased \<^verbatim>\<open>FileName\<close> of a found
  file, so a name found through the substring match is listed as missing: requesting
  \<^verbatim>\<open>report\<close> from a bucket that holds \<^verbatim>\<open>annual_report_2024.pdf\<close> finds that file
  and still reports \<^verbatim>\<open>report\<close> under ``Could not find''.  The other example of the
  claim holds: \<^verbatim>\<open>a.pdf\<close> and \<^verbatim>\<open>b.pdf\<close> requested from a bucket with only
  \<^verbatim>\<open>a.pdf\<close> give the missing set \<^verbatim>\<open>{"b.pdf"}\<close>.
\<close>

theorem missing_files_lists_substring_match:
  "fst (fst (find_specific_pdfs (bucket_of [Some [annual_report_pdf]] []) ''bucket'' [''report''] [])) =
     [pdf_entry annual_report_pdf]
   \<and> missing_files [pdf_entry annual_report_pdf] [''report''] = {''report''}
   \<and> fst (fst (find_specific_pdfs (bucket_of [Some [a_pdf]] []) ''bucket'' [''a.pdf'', ''b.pdf''] [])) =
     [pdf_entry a_pdf]
   \<and> missing_files [pdf_entry a_pdf] [''a.pdf'', ''b.pdf''] = {''b.pdf''}"
proof (intro conjI)
  have "match_targets (scan_pages [Some [annual_report_pdf]] []) [''report''] [] =
        [pdf_entry annual_report_pdf]"
    by code_simp
  then show "fst (fst (find_specific_pdfs (bucket_of [Some [annual_report_pdf]] []) ''bucket''
                         [''report''] [])) = [pdf_entry annual_report_pdf]"
    by (simp add: catalog_eq [OF example_listing])
  have "match_targets (scan_pages [Some [a_pdf]] []) [''a.pdf'', ''b.pdf''] [] = [pdf_entry a_pdf]"
    by code_simp
  then show "fst (fst (find_specific_pdfs (bucket_of [Some [a_pdf]] []) ''bucket''
                         [''a.pdf'', ''b.pdf''] [])) = [pdf_entry a_pdf]"
    by (simp add: catalog_eq [OF example_listing])
  have l: "lower ''report'' = ''report''" "lower ''a.pdf'' = ''a.pdf''" "lower ''b.pdf'' = ''b.pdf''"
    "lower (FileName (pdf_entry annual_report_pdf)) = ''annual_report_2024.pdf''"
    "lower (FileName (pdf_entry a_pdf)) = ''a.pdf''"
    by code_simp+
  show "missing_files [pdf_entry annual_report_pdf] [''report''] = {''report''}"
    by (simp add: missing_files_def l)
  show "missing_files [pdf_entry a_pdf] [''a.pdf'', ''b.pdf''] = {''b.pdf''}"
    by (simp add: missing_files_def l)
qed

section \<open>Matching by pattern\<close>

lemma search_from_star_any: "search_from [Star AnyChar] b s"
  by (cases s) simp_all

lemma parse_re_dot_star: "parse_re [] ''.*'' = Parsed [Star AnyChar]"
  by code_simp

lemma re_compile_dot_star:
  "re_compile ext ''.*'' = Compiled (\<lambda>subject. search_from [Star AnyChar] True subject)"
  by (simp add: re_compile_def parse_re_dot_star)

lemma search_from_iff:
  "search_from items b s \<longleftrightarrow> (\<exists>pre post. s = pre @ post \<and> match_here items (b \<and> pre = []) post)"
proof (induction s arbitrary: b)
  case Nil
  show ?case by simp
next
  case (Cons c cs)
  have "(\<exists>pre post. c # cs = pre @ post \<and> match_here items (b \<and> pre = []) post) \<longleftrightarrow>
        match_here items b (c # cs) \<or> (\<exists>pre post. cs = pre @ post \<and> match_here items False post)"
    (is "?L \<longleftrightarrow> ?A \<or> ?B")
  proof
    assume ?L
    then obtain pre post where e: "c # cs = pre @ post" and m: "match_here items (b \<and> pre = []) post"
      by blast
    show "?A \<or> ?B"
    proof (cases pre)
      case Nil
      with e m show ?thesis by simp
    next
      case (Cons a pre')
      with e m have "cs = pre' @ post \<and> match_here items False post" by simp
      then show ?thesis by blast
    qed
  next
    assume "?A \<or> ?B"
    then show ?L
    proof
      assume ?A
      then have "c # cs = [] @ (c # cs) \<and> match_here items (b \<and> ([]::string) = []) (c # cs)" by simp
      then show ?L by blast
    next
      assume ?B
      then obtain pre post where "cs = pre @ post" "match_here items False post" by blast
      then have "c # cs = (c # pre) @ post \<and> match_here items (b \<and> c # pre = []) post" by simp
      then show ?L by blast
    qed
  qed
  with Cons.IH [of False] show ?case by simp
qed

text \<open>
  Claim C3.  ``Browse All PDFs'' is pattern mode with the pattern \<^verbatim>\<open>.*\<close>: both give
  the same list and the same events; and \<^verbatim>\<open>search_by_pattern\<close> with \<^verbatim>\<open>.*\<close> returns
  the whole catalog that \<^verbatim>\<open>find_specific_pdfs\<close> builds from the same listing, the same
  entries in the same order (and the empty list when the listing fails, as the catalog
  then is).
\<close>

theorem browse_all_is_pattern_dot_star:
  "search_for_pdfs ext s3 bucket prefix BrowseAllPDFs =
     search_for_pdfs ext s3 bucket prefix (PatternSearch ''.*'')
   \<and> fst (search_by_pattern ext s3 bucket ''.*'' prefix) =
       snd (fst (find_specific_pdfs s3 bucket target_files prefix))"
proof
  show "search_for_pdfs ext s3 bucket prefix BrowseAllPDFs =
     search_for_pdfs ext s3 bucket prefix (PatternSearch ''.*'')"
    by simp
  show "fst (search_by_pattern ext s3 bucket ''.*'' prefix) =
       snd (fst (find_specific_pdfs s3 bucket target_files prefix))"
  proof (cases "list_pages s3 bucket prefix")
    case (Inl e)
    then show ?thesis
      by (cases e) (simp_all add: search_by_pattern_def find_specific_pdfs_def re_compile_dot_star)
  next
    case (Inr pages)
    then show ?thesis
      by (simp add: search_by_pattern_def find_specific_pdfs_def re_compile_dot_star
          search_pages_eq scan_pages_eq search_from_star_any Let_def)
  qed
qed

text \<open>Browsing the example bucket lists its three PDF files in listing order.\<close>

theorem browse_all_is_pattern_dot_star_witness:
  "fst (search_for_pdfs (\<lambda>p. RaisesReError) (bucket_of example_pages []) ''bucket'' [] BrowseAllPDFs) =
     [pdf_entry report_pdf, pdf_entry report_v2_pdf, pdf_entry annual_report_pdf]"
proof -
  have "fst (search_by_pattern (\<lambda>p. RaisesReError) (bucket_of example_pages []) ''bucket'' ''.*'' []) =
        snd (fst (find_specific_pdfs (bucket_of example_pages []) ''bucket'' [] []))"
    by (rule browse_all_is_pattern_dot_star [THEN conjunct2])
  also have "\<dots> = scan_pages example_pages []"
    by (simp add: catalog_eq [OF example_listing])
  finally show ?thesis by (simp add: example_catalog)
qed

text \<open>
  Claim C10.  Pattern mode searches, it does not match whole strings: with a listing
  that succeeds and a pattern that compiles, the result is the catalog filtered by
  ``\<^verbatim>\<open>search\<close> succeeds on the key or on the \<^verbatim>\<open>FileName\<close>'', each entry once and in
  catalog order.  For the patterns the model parses, \<^verbatim>\<open>search\<close> succeeds exactly when
  the pattern matches from some position of the subject on, the first or a later one.
  So \<^verbatim>\<open>report\<close> finds \<^verbatim>\<open>annual_report_2024.pdf\<close>, where it does not match at the
  start, and the empty pattern finds every catalog entry.
\<close>

theorem search_by_pattern_unanchored:
  assumes "list_pages s3 bucket prefix = Inr pages"
    and "re_compile ext pattern = Compiled pattern_regex"
  shows "fst (search_by_pattern ext s3 bucket pattern prefix) =
           filter (\<lambda>f. pattern_regex (Key f) \<or> pattern_regex (FileName f))
             (snd (fst (find_specific_pdfs s3 bucket target_files prefix)))
       \<and> (parse_re [] pattern = Parsed items \<longrightarrow>
            (pattern_regex subject \<longleftrightarrow>
               (\<exists>pre post. subject = pre @ post \<and> match_here items (pre = []) post)))
       \<and> (\<exists>r. re_compile ext ''report'' = Compiled r \<and> r ''annual_report_2024.pdf''
              \<and> \<not> match_here (map (\<lambda>c. Atom (Literal c)) ''report'') True ''annual_report_2024.pdf'')
       \<and> (\<exists>r. re_compile ext [] = Compiled r \<and> (\<forall>s. r s))
       \<and> fst (search_by_pattern ext s3 bucket [] prefix) =
           snd (fst (find_specific_pdfs s3 bucket target_files prefix))"
proof (intro conjI)
  show "fst (search_by_pattern ext s3 bucket pattern prefix) =
           filter (\<lambda>f. pattern_regex (Key f) \<or> pattern_regex (FileName f))
             (snd (fst (find_specific_pdfs s3 bucket target_files prefix)))"
    using assms scan_pages_eq [of pages "[]"]
    by (simp add: search_by_pattern_def catalog_eq search_pages_eq)
  show "parse_re [] pattern = Parsed items \<longrightarrow>
            (pattern_regex subject \<longleftrightarrow>
               (\<exists>pre post. subject = pre @ post \<and> match_here items (pre = []) post))"
  proof
    assume "parse_re [] pattern = Parsed items"
    with assms(2) have "pattern_regex = (\<lambda>subject. search_from items True subject)"
      by (simp add: re_compile_def)
    then show "pattern_regex subject \<longleftrightarrow>
               (\<exists>pre post. subject = pre @ post \<and> match_here items (pre = []) post)"
      by (simp add: search_from_iff)
  qed
  have p: "parse_re [] ''report'' = Parsed (map (\<lambda>c. Atom (Literal c)) ''report'')"
    by code_simp
  have m: "search_from (map (\<lambda>c. Atom (Literal c)) ''report'') True ''annual_report_2024.pdf''"
    by code_simp
  have n: "\<not> match_here (map (\<lambda>c. Atom (Literal c)) ''report'') True ''annual_report_2024.pdf''"
    by code_simp
  show "\<exists>r. re_compile ext ''report'' = Compiled r \<and> r ''annual_report_2024.pdf''
              \<and> \<not> match_here (map (\<lambda>c. Atom (Literal c)) ''report'') True ''annual_report_2024.pdf''"
    using m n by (simp add: re_compile_def p)
  have e: "re_compile ext [] = Compiled (\<lambda>subject. search_from [] True subject)"
    by (simp add: re_compile_def)
  have all: "search_from [] b s" for b s
    by (cases s) simp_all
  show "\<exists>r. re_compile ext [] = Compiled r \<and> (\<forall>s. r s)"
    by (simp add: e all)
  show "fst (search_by_pattern ext s3 bucket [] prefix) =
           snd (fst (find_specific_pdfs s3 bucket target_files prefix))"
    using assms(1) scan_pages_eq [of pages "[]"]
    by (simp add: search_by_pattern_def e catalog_eq search_pages_eq all)
qed

text \<open>
  In the example bucket \<^verbatim>\<open>report\<close> finds all three files; \<^verbatim>\<open>^report\<close> finds the two
  whose \<^verbatim>\<open>FileName\<close> starts so (their keys do not), \<^verbatim>\<open>^annual\<close> the third.
\<close>

theorem search_by_pattern_unanchored_witness:
  "fst (search_by_pattern (\<lambda>p. RaisesReError) (bucket_of example_pages []) ''bucket'' ''report'' []) =
     [pdf_entry report_pdf, pdf_entry report_v2_pdf, pdf_entry annual_report_pdf]
   \<and> fst (search_by_pattern (\<lambda>p. RaisesReError) (bucket_of example_pages []) ''bucket'' ''^report'' []) =
     [pdf_entry report_pdf, pdf_entry report_v2_pdf]
   \<and> fst (search_by_pattern (\<lambda>p. RaisesReError) (bucket_of example_pages []) ''bucket'' ''^annual'' []) =
     [pdf_entry annual_report_pdf]"
proof -
  let ?cat = "[pdf_entry report_pdf, pdf_entry report_v2_pdf, pdf_entry annual_report_pdf]"
  have cat: "snd (fst (find_specific_pdfs (bucket_of example_pages []) ''bucket'' [] [])) = ?cat"
    by (simp add: catalog_eq [OF example_listing] example_catalog)
  have r: "re_compile (\<lambda>p. RaisesReError) pat = Compiled (\<lambda>subject. search_from items True subject)"
    if "parse_re [] pat = Parsed items" for pat items
    using that by (simp add: re_compile_def)
  have p1: "parse_re [] ''report'' = Parsed (map (\<lambda>c. Atom (Literal c)) ''report'')"
    and p2: "parse_re [] ''^report'' = Parsed (AtBeginning # map (\<lambda>c. Atom (Literal c)) ''report'')"
    and p3: "parse_re [] ''^annual'' = Parsed (AtBeginning # map (\<lambda>c. Atom (Literal c)) ''annual'')"
    by code_simp+
  have e1: "filter (\<lambda>f. search_from (map (\<lambda>c. Atom (Literal c)) ''report'') True (Key f)
                       \<or> search_from (map (\<lambda>c. Atom (Literal c)) ''report'') True (FileName f)) ?cat = ?cat"
    by code_simp
  have e2: "filter (\<lambda>f. search_from (AtBeginning # map (\<lambda>c. Atom (Literal c)) ''report'') True (Key f)
                       \<or> search_from (AtBeginning # map (\<lambda>c. Atom (Literal c)) ''report'') True (FileName f)) ?cat =
            [pdf_entry report_pdf, pdf_entry report_v2_pdf]"
    by code_simp
  have e3: "filter (\<lambda>f. search_from (AtBeginning # map (\<lambda>c. Atom (Literal c)) ''annual'') True (Key f)
                       \<or> search_from (AtBeginning # map (\<lambda>c. Atom (Literal c)) ''annual'') True (FileName f)) ?cat =
            [pdf_entry annual_report_pdf]"
    by code_simp
  from search_by_pattern_unanchored [OF example_listing r [OF p1], THEN conjunct1, of example_pages "[]" "''bucket''" "[]" "[]"]
    search_by_pattern_unanchored [OF example_listing r [OF p2], THEN conjunct1, of example_pages "[]" "''bucket''" "[]" "[]"]
    search_by_pattern_unanchored [OF example_listing r [OF p3], THEN conjunct1, of example_pages "[]" "''bucket''" "[]" "[]"]
  show ?thesis
    by (simp only: cat e1 e2 e3)
qed

text \<open>
  Claim C6 says that pattern mode fails with InvalidPattern if and only if the pattern
  does not compile.  For a repetition count that is too large \<^verbatim>\<open>re.compile\<close> raises
  \<^verbatim>\<open>OverflowError\<close>, which is no \<^verbatim>\<open>re.error\<close>: the pattern does not compile, and
  the function reports ``Error searching files'', not ``Invalid regex pattern''.
\<close>

theorem repetition_overflow_not_invalid_pattern:
  "re_compile (\<lambda>p. RaisesReError) ''a{99999999999}'' = RaisesOther
   \<and> search_by_pattern (\<lambda>p. RaisesReError) (bucket_of example_pages []) ''bucket''
         ''a{99999999999}'' [] =
       ([], [StError ErrorSearchingFiles])"
proof -
  have "parse_re [] ''a{99999999999}'' = RepeatTooLarge"
    by code_simp
  then have "re_compile (\<lambda>p. RaisesReError) ''a{99999999999}'' = RaisesOther"
    by (simp add: re_compile_def)
  then show ?thesis
    by (simp add: search_by_pattern_def)
qed

text \<open>
  Claim C6, as amended.  \<^verbatim>\<open>search_by_pattern\<close> reports ``Invalid regex pattern'' if
  and only if \<^verbatim>\<open>re.compile\<close> raises \<^verbatim>\<open>re.error\<close> for the pattern; when
  \<^verbatim>\<open>re.compile\<close> raises another exception it reports ``Error searching files''.  In
  both cases it returns no entry and the error message is its only event, so the bucket is
  not listed: the listing is requested if and only if the pattern compiles, and is then
  the first event.
\<close>

theorem search_by_pattern_invalid_pattern:
  "(StError InvalidRegexPattern \<in> set (snd (search_by_pattern ext s3 bucket pattern prefix))
      \<longleftrightarrow> re_compile ext pattern = RaisesReError)
   \<and> (re_compile ext pattern = RaisesReError \<longrightarrow>
         search_by_pattern ext s3 bucket pattern prefix = ([], [StError InvalidRegexPattern]))
   \<and> (re_compile ext pattern = RaisesOther \<longrightarrow>
         search_by_pattern ext s3 bucket pattern prefix = ([], [StError ErrorSearchingFiles]))
   \<and> (ListObjectsV2 bucket prefix \<in> set (snd (search_by_pattern ext s3 bucket pattern prefix))
      \<longleftrightarrow> (\<exists>pattern_regex. re_compile ext pattern = Compiled pattern_regex))
   \<and> (re_compile ext pattern = Compiled pattern_regex \<longrightarrow>
         hd (snd (search_by_pattern ext s3 bucket pattern prefix)) = ListObjectsV2 bucket prefix)
   \<and> (re_compile ext pattern = RaisesReError \<longleftrightarrow>
         parse_re [] pattern = ReError
         \<or> (parse_re [] pattern = OtherSyntax \<and> ext pattern = RaisesReError))"
proof (intro conjI)
  show "StError InvalidRegexPattern \<in> set (snd (search_by_pattern ext s3 bucket pattern prefix))
      \<longleftrightarrow> re_compile ext pattern = RaisesReError"
    by (auto simp: search_by_pattern_def split: compile_result.splits sum.splits)
  show "re_compile ext pattern = RaisesReError \<longrightarrow>
         search_by_pattern ext s3 bucket pattern prefix = ([], [StError InvalidRegexPattern])"
    by (simp add: search_by_pattern_def)
  show "re_compile ext pattern = RaisesOther \<longrightarrow>
         search_by_pattern ext s3 bucket pattern prefix = ([], [StError ErrorSearchingFiles])"
    by (simp add: search_by_pattern_def)
  show "ListObjectsV2 bucket prefix \<in> set (snd (search_by_pattern ext s3 bucket pattern prefix))
      \<longleftrightarrow> (\<exists>pattern_regex. re_compile ext pattern = Compiled pattern_regex)"
    by (auto simp: search_by_pattern_def split: compile_result.splits sum.splits)
  show "re_compile ext pattern = Compiled pattern_regex \<longrightarrow>
         hd (snd (search_by_pattern ext s3 bucket pattern prefix)) = ListObjectsV2 bucket prefix"
    by (auto simp: search_by_pattern_def split: sum.splits)
  show "re_compile ext pattern = RaisesReError \<longleftrightarrow>
         parse_re [] pattern = ReError
         \<or> (parse_re [] pattern = OtherSyntax \<and> ext pattern = RaisesReError)"
    by (auto simp: re_compile_def split: parsed.splits)
qed

text \<open>The pattern \<^verbatim>\<open>*.pdf\<close> has nothing to repeat; \<^verbatim>\<open>.*\<close> compiles.\<close>

theorem search_by_pattern_invalid_pattern_witness:
  "search_by_pattern (\<lambda>p. RaisesReError) (bucket_of example_pages []) ''bucket'' ''*.pdf'' [] =
     ([], [StError InvalidRegexPattern])
   \<and> hd (snd (search_by_pattern (\<lambda>p. RaisesReError) (bucket_of example_pages []) ''bucket'' ''.*'' [])) =
     ListObjectsV2 ''bucket'' []"
proof -
  have "parse_re [] ''*.pdf'' = ReError" by code_simp
  then have a: "re_compile (\<lambda>p. RaisesReError) ''*.pdf'' = RaisesReError"
    by (simp add: re_compile_def)
  have b: "re_compile (\<lambda>p. RaisesReError) ''.*'' =
           Compiled (\<lambda>subject. search_from [Star AnyChar] True subject)"
    by (rule re_compile_dot_star)
  from a b
    search_by_pattern_invalid_pattern [where ext = "\<lambda>p. RaisesReError"
      and ?s3.0 = "bucket_of example_pages []" and bucket = "''bucket''" and pattern = "''*.pdf''"
      and prefix = "[]"]
    search_by_pattern_invalid_pattern [where ext = "\<lambda>p. RaisesReError"
      and ?s3.0 = "bucket_of example_pages []" and bucket = "''bucket''" and pattern = "''.*''"
      and prefix = "[]" and pattern_regex = "\<lambda>subject. search_from [Star AnyChar] True subject"]
  show ?thesis by simp
qed

section \<open>Failures of the listing\<close>

text \<open>
  Claim C5 says that the caller can tell a failed listing from a search over an empty
  catalog.  \<^verbatim>\<open>find_specific_pdfs\<close> returns the same value in both cases.
\<close>

theorem listing_failure_same_value:
  "fst (find_specific_pdfs (failing_client ClientError) ''bucket'' [''a.pdf''] []) =
   fst (find_specific_pdfs (bucket_of [] []) ''bucket'' [''a.pdf''] [])"
proof -
  have "find_specific_pdfs (failing_client ClientError) ''bucket'' [''a.pdf''] [] =
          (([], []), [ListObjectsV2 ''bucket'' [], StError ErrorAccessingS3Bucket])"
    by (simp add: find_specific_pdfs_def failing_client_def)
  moreover have "find_specific_pdfs (bucket_of [] []) ''bucket'' [''a.pdf''] [] =
          ((match_targets (scan_pages [] []) [''a.pdf''] [], scan_pages [] []),
           [ListObjectsV2 ''bucket'' []])"
    by (rule catalog_eq [OF example_listing])
  moreover have "scan_pages [] [] = []" by simp
  moreover have "match_targets [] [''a.pdf''] [] = []" by (rule match_targets_Nil)
  ultimately show ?thesis by simp
qed

text \<open>
  Claim C5, as amended.  When the listing fails, \<^verbatim>\<open>find_specific_pdfs\<close> catches the
  exception, reports it with one \<^verbatim>\<open>st.error\<close> message (``Error accessing S3 bucket''
  for a \<^verbatim>\<open>ClientError\<close>, ``Unexpected error'' otherwise) and returns
  \<^verbatim>\<open>([], [])\<close>, the value it also returns for an empty listing; nothing is raised to
  the caller.  \<^verbatim>\<open>search_by_pattern\<close> likewise reports ``Error searching files'' and
  returns the empty list.
\<close>

theorem listing_failure_reported:
  assumes "list_pages s3 bucket prefix = Inl e"
  shows "find_specific_pdfs s3 bucket target_files prefix =
           (([], []), [ListObjectsV2 bucket prefix,
              StError (case e of ClientError \<Rightarrow> ErrorAccessingS3Bucket
                               | OtherException \<Rightarrow> UnexpectedError)])
       \<and> (list_pages s3' bucket prefix = Inr [] \<longrightarrow>
             fst (find_specific_pdfs s3' bucket target_files prefix) =
             fst (find_specific_pdfs s3 bucket target_files prefix))
       \<and> ((\<exists>pattern_regex. re_compile ext pattern = Compiled pattern_regex) \<longrightarrow>
             search_by_pattern ext s3 bucket pattern prefix =
               ([], [ListObjectsV2 bucket prefix, StError ErrorSearchingFiles]))"
  using assms
  by (cases e) (auto simp: find_specific_pdfs_def search_by_pattern_def match_targets_Nil)

text \<open>A client whose listing fails, with either kind of exception.\<close>

theorem listing_failure_reported_witness:
  "find_specific_pdfs (failing_client OtherException) ''bucket'' [''a.pdf''] [] =
     (([], []), [ListObjectsV2 ''bucket'' [], StError UnexpectedError])
   \<and> search_by_pattern (\<lambda>p. RaisesReError) (failing_client ClientError) ''bucket'' ''.*'' [] =
     ([], [ListObjectsV2 ''bucket'' [], StError ErrorSearchingFiles])"
proof -
  have a: "list_pages (failing_client OtherException) ''bucket'' [] = Inl OtherException"
    and b: "list_pages (failing_client ClientError) ''bucket'' [] = Inl ClientError"
    by (simp_all add: failing_client_def)
  have c: "\<exists>pattern_regex. re_compile (\<lambda>p. RaisesReError) ''.*'' = Compiled pattern_regex"
    by (simp add: re_compile_dot_star)
  from listing_failure_reported [OF a, of "[''a.pdf'']"]
    listing_failure_reported [OF b, of _ _ "\<lambda>p. RaisesReError" "''.*''"] c
  show ?thesis by simp
qed

section \<open>The archive and the bulk download\<close>

lemma write_members_eq:
  "write_members deflate items zip_file =
     (if \<exists>(file_name, file_data) \<in> set items.
            takeWhile (\<lambda>c. c \<noteq> CHR 0x00) (last_segment file_name) = []
      then Inl IndexError
      else Inr (zip_file @ map (\<lambda>(file_name, file_data).
                  \<lparr>filename = takeWhile (\<lambda>c. c \<noteq> CHR 0x00) (last_segment file_name),
                   compress_type = ZIP_DEFLATED, compressed = deflate file_data\<rparr>) items))"
proof (induction deflate items zip_file rule: write_members.induct)
  case (1 deflate zip_file)
  show ?case by simp
next
  case (2 deflate file_name file_data items zip_file)
  show ?case
  proof (cases "takeWhile (\<lambda>c. c \<noteq> CHR 0x00) (last_segment file_name) = []")
    case True
    then show ?thesis by (simp add: writestr_def)
  next
    case False
    then show ?thesis using 2 by (simp add: writestr_def)
  qed
qed

lemma takeWhile_no_nul:
  "CHR 0x00 \<notin> set name \<Longrightarrow> takeWhile (\<lambda>c. c \<noteq> CHR 0x00) name = name"
  by (induction name) auto

lemma write_members_proper:
  assumes "\<forall>(file_name, file_data) \<in> set items.
             last_segment file_name \<noteq> [] \<and> CHR 0x00 \<notin> set (last_segment file_name)"
  shows "write_members deflate items zip_file =
           Inr (zip_file @ map (\<lambda>(file_name, file_data).
                  \<lparr>filename = last_segment file_name,
                   compress_type = ZIP_DEFLATED, compressed = deflate file_data\<rparr>) items)"
proof -
  have a: "\<not> (\<exists>(file_name, file_data) \<in> set items.
            takeWhile (\<lambda>c. c \<noteq> CHR 0x00) (last_segment file_name) = [])"
    using assms by (auto simp: takeWhile_no_nul)
  have b: "map (\<lambda>(file_name, file_data).
                  \<lparr>filename = takeWhile (\<lambda>c. c \<noteq> CHR 0x00) (last_segment file_name),
                   compress_type = ZIP_DEFLATED, compressed = deflate file_data\<rparr>) items =
           map (\<lambda>(file_name, file_data).
                  \<lparr>filename = last_segment file_name,
                   compress_type = ZIP_DEFLATED, compressed = deflate file_data\<rparr>) items"
    using assms by (auto simp: takeWhile_no_nul)
  show ?thesis by (simp only: write_members_eq a b if_False)
qed



lemma zip_read_last:
  "zip_read inflate zip_file name =
     (if filter (\<lambda>m. filename m = name) zip_file = [] then None
      else Some (inflate (compressed (last (filter (\<lambda>m. filename m = name) zip_file)))))"
  by (cases "filter (\<lambda>m. filename m = name) zip_file") (simp_all add: zip_read_def)

lemma zip_read_eq:
  "zip_read inflate zip_file name =
     map_of (rev (map (\<lambda>m. (filename m, inflate (compressed m))) zip_file)) name"
proof (induction zip_file rule: rev_induct)
  case Nil
  show ?case by (simp add: zip_read_last)
next
  case (snoc m zip_file)
  then show ?case by (auto simp: zip_read_last split: if_splits)
qed

lemma map_of_rev_distinct:
  assumes "distinct (map fst xs)"
  shows "map_of (rev xs) = map_of xs"
proof -
  have "distinct (map fst (rev xs))" using assms by (simp add: rev_map [symmetric])
  then show ?thesis using assms by (simp add: map_of_inject_set)
qed


lemma inflate_members:
  assumes "\<forall>b. inflate (deflate b) = b"
  shows "map (\<lambda>m. (filename m, inflate (compressed m)))
           (map (\<lambda>(file_name, file_data).
                  \<lparr>filename = f file_name,
                   compress_type = ZIP_DEFLATED, compressed = deflate file_data\<rparr>) items) =
         map (\<lambda>(file_name, file_data). (f file_name, file_data)) items"
  using assms by (induction items) auto




lemma dict_set_fresh: "k \<notin> set (map fst fd) \<Longrightarrow> dict_set fd k v = fd @ [(k, v)]"
  by (induction fd k v rule: dict_set.induct) auto

lemma dict_set_not_Nil: "dict_set fd k v \<noteq> []"
  by (induction fd k v rule: dict_set.induct) simp_all

lemma foldl_dict_set_Nil:
  "foldl (\<lambda>fd (k, d). dict_set fd k d) fd kept = [] \<longleftrightarrow> fd = [] \<and> kept = []"
proof (induction kept arbitrary: fd)
  case Nil
  show ?case by simp
next
  case (Cons p kept)
  obtain k d where p: "p = (k, d)" by (cases p)
  have "foldl (\<lambda>fd (k, d). dict_set fd k d) fd (p # kept) =
        foldl (\<lambda>fd (k, d). dict_set fd k d) (dict_set fd k d) kept"
    by (simp add: p)
  then show ?case by (simp only: Cons.IH dict_set_not_Nil) simp
qed

lemma foldl_dict_set_distinct:
  "distinct (map fst (fd @ kept)) \<Longrightarrow> foldl (\<lambda>fd (k, d). dict_set fd k d) fd kept = fd @ kept"
proof (induction kept arbitrary: fd)
  case Nil
  show ?case by simp
next
  case (Cons p kept)
  obtain k d where p: "p = (k, d)" by (cases p)
  from Cons.prems p have fresh: "k \<notin> set (map fst fd)" by simp
  from Cons.prems p have "distinct (map fst ((fd @ [(k, d)]) @ kept))" by simp
  from Cons.IH [OF this] have "foldl (\<lambda>fd (k, d). dict_set fd k d) (fd @ [(k, d)]) kept = (fd @ [(k, d)]) @ kept" .
  with p fresh show ?case by (simp add: dict_set_fresh)
qed

lemma map_of_dict_set: "map_of (dict_set fd k v) x = (if x = k then Some v else map_of fd x)"
  by (induction fd k v rule: dict_set.induct) auto

lemma map_of_foldl_dict_set:
  "map_of (foldl (\<lambda>fd (k, d). dict_set fd k d) fd kept) x =
     (case map_of (rev kept) x of Some d \<Rightarrow> Some d | None \<Rightarrow> map_of fd x)"
proof (induction kept arbitrary: fd)
  case Nil
  show ?case by simp
next
  case (Cons p kept)
  obtain k d where p: "p = (k, d)" by (cases p)
  have "map_of (foldl (\<lambda>fd (k, d). dict_set fd k d) fd (p # kept)) x =
        (case map_of (rev kept) x of Some d \<Rightarrow> Some d | None \<Rightarrow> map_of (dict_set fd k d) x)"
    using Cons.IH [of "dict_set fd k d"] by (simp add: p)
  also have "\<dots> = (case map_of (rev (p # kept)) x of Some d \<Rightarrow> Some d | None \<Rightarrow> map_of fd x)"
    by (cases "map_of (rev kept) x") (simp_all add: p map_of_dict_set map_add_def)
  finally show ?case .
qed

lemma dict_set_keys:
  "map fst (dict_set fd k v) = (if k \<in> set (map fst fd) then map fst fd else map fst fd @ [k])"
  by (induction fd k v rule: dict_set.induct) auto

lemma foldl_dict_set_keys:
  "distinct (map fst fd) \<Longrightarrow>
   distinct (map fst (foldl (\<lambda>fd (k, d). dict_set fd k d) fd kept)) \<and>
   set (map fst (foldl (\<lambda>fd (k, d). dict_set fd k d) fd kept)) = set (map fst fd) \<union> set (map fst kept)"
proof (induction kept arbitrary: fd)
  case Nil
  then show ?case by simp
next
  case (Cons p kept)
  obtain k d where p: "p = (k, d)" by (cases p)
  from Cons.prems have "distinct (map fst (dict_set fd k d))"
    by (simp add: dict_set_keys)
  from Cons.IH [OF this] show ?case
    by (auto simp: p dict_set_keys)
qed

lemma download_selected_eq:
  "download_selected s3 bucket selected files_data events =
     (foldl (\<lambda>fd (k, d). dict_set fd k d) files_data
        (filter (\<lambda>(k, d). d \<noteq> []) (successful_downloads s3 bucket selected)),
      events @ download_events s3 bucket selected)"
proof (induction selected arbitrary: files_data events)
  case Nil
  show ?case by (simp add: successful_downloads_def download_events_def)
next
  case (Cons f selected)
  show ?case
  proof (cases "get_object s3 bucket (Key f)")
    case (Inl e)
    then show ?thesis
      by (simp add: Cons.IH download_file_def successful_downloads_def download_events_def)
  next
    case (Inr body)
    then show ?thesis
      by (simp add: Cons.IH download_file_def successful_downloads_def download_events_def)
  qed
qed

lemma successful_nonempty:
  assumes "\<forall>f \<in> set selected. get_object s3 bucket (Key f) \<noteq> Inr []"
  shows "filter (\<lambda>(k, d). d \<noteq> []) (successful_downloads s3 bucket selected) =
         successful_downloads s3 bucket selected"
  using assms
  by (induction selected) (auto simp: successful_downloads_def split: sum.splits)

lemma successful_file_names:
  "set (map fst (successful_downloads s3 bucket selected)) \<subseteq> FileName ` set selected"
  by (induction selected) (auto simp: successful_downloads_def split: sum.splits)

lemma last_segment_no_slash: "CHR ''/'' \<notin> set name \<Longrightarrow> last_segment name = name"
  by (simp add: last_segment_def split_on_def split_fields_no_sep)

lemma members_of_flat_names:
  assumes "\<forall>(k, d) \<in> set fd. CHR ''/'' \<notin> set k"
  shows "map (\<lambda>(file_name, file_data).
                 \<lparr>filename = last_segment file_name,
                  compress_type = ZIP_DEFLATED, compressed = deflate file_data\<rparr>) fd =
         map (\<lambda>(file_name, file_data).
                 \<lparr>filename = file_name,
                  compress_type = ZIP_DEFLATED, compressed = deflate file_data\<rparr>) fd"
  using assms by (induction fd) (auto simp: last_segment_no_slash)

lemma base_items_flat_names:
  assumes "\<forall>(k, d) \<in> set fd. CHR ''/'' \<notin> set k"
  shows "base_items fd = fd"
  using assms by (induction fd) (auto simp: base_items_def last_segment_no_slash)

text \<open>
  Claim C8 says that the archive is made from exactly the files whose downloads
  succeeded.  Two selected files \<^verbatim>\<open>a/x.pdf\<close> and \<^verbatim>\<open>b/x.pdf\<close> are both downloaded, and
  the archive holds one member, with the bytes of the second: \<^verbatim>\<open>files_data\<close> is keyed
  by \<^verbatim>\<open>FileName\<close>.  (The deflate coding is taken to be the identity here.)
\<close>

theorem bulk_download_same_file_name:
  "download_selected_as_zip (\<lambda>b. b) (bucket_of [] example_bodies) ''bucket''
     [pdf_entry a_x_pdf, pdf_entry b_x_pdf] =
   (Some (Inr [\<lparr>filename = ''x.pdf'', compress_type = ZIP_DEFLATED, compressed = [2]\<rparr>]),
    [GetObject ''bucket'' ''a/x.pdf'', GetObject ''bucket'' ''b/x.pdf''])"
proof -
  have "last_segment ''x.pdf'' = ''x.pdf''" by code_simp
  then show ?thesis
    by (simp add: download_selected_as_zip_def download_file_def example_file_names
        example_get_object create_zip_file_def writestr_def)
qed

text \<open>
  Claim C8, as amended.  The selected files are requested one after the other in
  selection order; a download that fails is reported with \<^verbatim>\<open>st.error\<close> and skipped,
  and the loop goes on.  Provided no download returns an empty body: \<^verbatim>\<open>create_zip_file\<close>
  is called when at least one download succeeded, with a dictionary that has exactly one
  item for each \<^verbatim>\<open>FileName\<close> among the files whose downloads succeeded, holding the
  body downloaded last under that name; when these file names are pairwise different the
  dictionary is exactly the files whose downloads succeeded, in selection order.  When
  moreover the \<^verbatim>\<open>FileName\<close> of every selected file is non-empty and has no \<^verbatim>\<open>/\<close>
  and no NUL character (as the entries of the catalog have, but for NUL), the archive is
  made and has one member for each item of the dictionary, under the item's name: the
  member names are pairwise different, they are the file names of the successful
  downloads, and reading a name gives the body downloaded last under it.
\<close>

theorem bulk_download_amended:
  assumes "\<forall>f \<in> set selected. get_object s3 bucket (Key f) \<noteq> Inr []"
  shows "snd (download_selected_as_zip deflate s3 bucket selected) = download_events s3 bucket selected
       \<and> fst (download_selected_as_zip deflate s3 bucket selected) =
           (if successful_downloads s3 bucket selected = [] then None
            else Some (create_zip_file deflate
                   (foldl (\<lambda>fd (k, d). dict_set fd k d) [] (successful_downloads s3 bucket selected))))
       \<and> map_of (foldl (\<lambda>fd (k, d). dict_set fd k d) [] (successful_downloads s3 bucket selected)) name =
           map_of (rev (successful_downloads s3 bucket selected)) name
       \<and> distinct (map fst (foldl (\<lambda>fd (k, d). dict_set fd k d) [] (successful_downloads s3 bucket selected)))
       \<and> set (map fst (foldl (\<lambda>fd (k, d). dict_set fd k d) [] (successful_downloads s3 bucket selected))) =
           set (map fst (successful_downloads s3 bucket selected))
       \<and> (distinct (map fst (successful_downloads s3 bucket selected)) \<longrightarrow>
            foldl (\<lambda>fd (k, d). dict_set fd k d) [] (successful_downloads s3 bucket selected) =
            successful_downloads s3 bucket selected)
       \<and> ((\<forall>f \<in> set selected. FileName f \<noteq> [] \<and> CHR ''/'' \<notin> set (FileName f)
                                 \<and> CHR 0x00 \<notin> set (FileName f)) \<longrightarrow>
            create_zip_file deflate
                (foldl (\<lambda>fd (k, d). dict_set fd k d) [] (successful_downloads s3 bucket selected)) =
              Inr (map (\<lambda>(file_name, file_data).
                     \<lparr>filename = file_name, compress_type = ZIP_DEFLATED,
                      compressed = deflate file_data\<rparr>)
                   (foldl (\<lambda>fd (k, d). dict_set fd k d) [] (successful_downloads s3 bucket selected)))
            \<and> (\<forall>zip_file. create_zip_file deflate
                  (foldl (\<lambda>fd (k, d). dict_set fd k d) [] (successful_downloads s3 bucket selected)) =
                  Inr zip_file \<longrightarrow>
                  distinct (map filename zip_file)
                  \<and> set (map filename zip_file) = set (map fst (successful_downloads s3 bucket selected))
                  \<and> ((\<forall>b. inflate (deflate b) = b) \<longrightarrow>
                        zip_read inflate zip_file name =
                        map_of (rev (successful_downloads s3 bucket selected)) name)))"
proof (intro conjI impI allI)
  let ?ok = "successful_downloads s3 bucket selected"
  let ?fd = "foldl (\<lambda>fd (k, d). dict_set fd k d) [] ?ok"
  let ?mk = "\<lambda>(file_name, file_data).
               \<lparr>filename = file_name, compress_type = ZIP_DEFLATED, compressed = deflate file_data\<rparr>"
  have sel: "download_selected s3 bucket selected [] [] = (?fd, download_events s3 bucket selected)"
    by (simp add: download_selected_eq successful_nonempty [OF assms])
  show "snd (download_selected_as_zip deflate s3 bucket selected) = download_events s3 bucket selected"
    by (simp add: download_selected_as_zip_def sel)
  have "?fd = [] \<longleftrightarrow> ?ok = []" by (simp add: foldl_dict_set_Nil)
  then show "fst (download_selected_as_zip deflate s3 bucket selected) =
           (if ?ok = [] then None else Some (create_zip_file deflate ?fd))"
    by (simp add: download_selected_as_zip_def sel)
  show last_wins: "map_of ?fd name = map_of (rev ?ok) name"
    by (simp add: map_of_foldl_dict_set split: option.split)
  show keys: "distinct (map fst ?fd)" and key_set: "set (map fst ?fd) = set (map fst ?ok)"
    using foldl_dict_set_keys [of "[]" ?ok] by simp_all
  show "?fd = ?ok" if "distinct (map fst ?ok)"
    using foldl_dict_set_distinct [of "[]" ?ok] that by simp
  assume names: "\<forall>f \<in> set selected. FileName f \<noteq> [] \<and> CHR ''/'' \<notin> set (FileName f)
                                 \<and> CHR 0x00 \<notin> set (FileName f)"
  have "set (map fst ?fd) \<subseteq> FileName ` set selected"
    using successful_file_names [of s3 bucket selected] by (simp only: key_set)
  then have sub: "set (map fst ?fd) \<subseteq> FileName ` set selected" .
  have k: "\<forall>k \<in> set (map fst ?fd). k \<noteq> [] \<and> CHR ''/'' \<notin> set k \<and> CHR 0x00 \<notin> set k"
  proof
    fix k
    assume "k \<in> set (map fst ?fd)"
    with sub have "k \<in> FileName ` set selected" by (rule subsetD)
    then obtain f where f: "f \<in> set selected" and kf: "k = FileName f" by blast
    from names f have "FileName f \<noteq> [] \<and> CHR ''/'' \<notin> set (FileName f) \<and> CHR 0x00 \<notin> set (FileName f)"
      by (rule bspec)
    then show "k \<noteq> [] \<and> CHR ''/'' \<notin> set k \<and> CHR 0x00 \<notin> set k"
      by (simp add: kf)
  qed
  then have flat: "\<forall>(k, d) \<in> set ?fd. CHR ''/'' \<notin> set k"
    by force
  from k have "\<forall>name \<in> set (map fst (base_items ?fd)). name \<noteq> [] \<and> CHR 0x00 \<notin> set name"
    by (simp only: base_items_flat_names [OF flat]) blast
  then have proper: "\<forall>(file_name, file_data) \<in> set ?fd.
             last_segment file_name \<noteq> [] \<and> CHR 0x00 \<notin> set (last_segment file_name)"
    by (auto simp: base_items_def)
  show made: "create_zip_file deflate ?fd = Inr (map ?mk ?fd)"
    using write_members_proper [OF proper, of deflate "[]"]
    by (simp add: create_zip_file_def members_of_flat_names [OF flat])
  fix zip_file
  assume "create_zip_file deflate ?fd = Inr zip_file"
  with made have z: "zip_file = map ?mk ?fd" by simp
  have fn: "map filename zip_file = map fst ?fd"
    unfolding z by (induction ?fd) auto
  show "distinct (map filename zip_file)"
    by (simp only: fn keys)
  show "set (map filename zip_file) = set (map fst ?ok)"
    by (simp only: fn key_set)
  assume codec: "\<forall>b. inflate (deflate b) = b"
  have "map (\<lambda>m. (filename m, inflate (compressed m))) zip_file =
        map (\<lambda>(file_name, file_data). (id file_name, file_data)) ?fd"
    unfolding z
    using inflate_members [where inflate = inflate and deflate = deflate and f = id
        and items = ?fd, OF codec] by simp
  then have items: "map (\<lambda>m. (filename m, inflate (compressed m))) zip_file = ?fd"
    by simp
  have "zip_read inflate zip_file name = map_of (rev ?fd) name"
    by (simp only: zip_read_eq items)
  also have "\<dots> = map_of ?fd name"
    by (simp only: map_of_rev_distinct [OF keys])
  also note last_wins
  finally show "zip_read inflate zip_file name = map_of (rev ?ok) name" .
qed

text \<open>Three selected files; the second cannot be fetched.\<close>

theorem bulk_download_amended_witness:
  "download_selected_as_zip (\<lambda>b. b) (bucket_of [] example_bodies) ''bucket''
     [pdf_entry a_x_pdf, pdf_entry annual_report_pdf, pdf_entry report_pdf] =
   (Some (Inr [\<lparr>filename = ''x.pdf'', compress_type = ZIP_DEFLATED, compressed = [1]\<rparr>,
               \<lparr>filename = ''Report.PDF'', compress_type = ZIP_DEFLATED, compressed = [3, 4]\<rparr>]),
    [GetObject ''bucket'' ''a/x.pdf'',
     GetObject ''bucket'' ''annual_report_2024.pdf'', StError (ErrorDownloading ''annual_report_2024.pdf''),
     GetObject ''bucket'' ''docs/Report.PDF''])"
proof -
  let ?s3 = "bucket_of [] example_bodies"
  let ?sel = "[pdf_entry a_x_pdf, pdf_entry annual_report_pdf, pdf_entry report_pdf]"
  have ne: "\<forall>f \<in> set ?sel. get_object ?s3 ''bucket'' (Key f) \<noteq> Inr []"
    by (simp add: example_file_names example_get_object)
  have names: "\<forall>f \<in> set ?sel. FileName f \<noteq> [] \<and> CHR ''/'' \<notin> set (FileName f)
                                 \<and> CHR 0x00 \<notin> set (FileName f)"
    by (simp add: example_file_names)
  have ok: "successful_downloads ?s3 ''bucket'' ?sel = [(''x.pdf'', [1]), (''Report.PDF'', [3, 4])]"
    by (simp add: successful_downloads_def example_file_names example_get_object)
  have ev: "download_events ?s3 ''bucket'' ?sel =
      [GetObject ''bucket'' ''a/x.pdf'',
       GetObject ''bucket'' ''annual_report_2024.pdf'', StError (ErrorDownloading ''annual_report_2024.pdf''),
       GetObject ''bucket'' ''docs/Report.PDF'']"
    by (simp add: download_events_def example_file_names example_get_object)
  from bulk_download_amended [OF ne, of "\<lambda>b. b" "[]" "\<lambda>b. b"] names
  have "snd (download_selected_as_zip (\<lambda>b. b) ?s3 ''bucket'' ?sel) = download_events ?s3 ''bucket'' ?sel"
    and "fst (download_selected_as_zip (\<lambda>b. b) ?s3 ''bucket'' ?sel) =
         Some (Inr [\<lparr>filename = ''x.pdf'', compress_type = ZIP_DEFLATED, compressed = [1]\<rparr>,
               \<lparr>filename = ''Report.PDF'', compress_type = ZIP_DEFLATED, compressed = [3, 4]\<rparr>])"
    by (simp_all add: ok)
  then show ?thesis
    by (simp add: ev prod_eq_iff)
qed

end
